theory Spec2Isabelle
  imports Complex_Main "HOL-Library.Log_Nat" "HOL-Library.List_Lexorder" "HOL-Library.Char_ord"
    "HOL-Library.Product_Lexorder"
begin

section \<open>Rolling synthetic crime assignment: the data model\<close>

text \<open>
  The development embeds \<^verbatim>\<open>src/cj_pipeline/synthetic_assignment.py\<close>. A pandas data frame
  is a list of rows, a row is a record of its columns. A float64 cell is either missing
  (\<open>NaN\<close>) or a finite rational. The estimator, whose result is rounded to an integer,
  computes with the rounding of float64 (below); the sampling weights are kept exact.
\<close>

datatype fl = NaN | Fin rat

fun isna :: "fl \<Rightarrow> bool" where
  "isna NaN = True"
| "isna (Fin _) = False"

text \<open>Comparisons with \<open>NaN\<close> are false, as in IEEE arithmetic.\<close>

fun fl_pos :: "fl \<Rightarrow> bool" where
  "fl_pos NaN = False"
| "fl_pos (Fin a) = (0 < a)"

fun fl_mul :: "fl \<Rightarrow> fl \<Rightarrow> fl" where
  "fl_mul (Fin a) (Fin b) = Fin (a * b)"
| "fl_mul _ _ = NaN"

fun fl_add :: "fl \<Rightarrow> fl \<Rightarrow> fl" where
  "fl_add (Fin a) (Fin b) = Fin (a + b)"
| "fl_add _ _ = NaN"

text \<open>
  \<^verbatim>\<open>ndarray.round()\<close> rounds to the nearest integer and a tie to the even neighbour.
\<close>

definition np_round :: "rat \<Rightarrow> int" where
  "np_round x =
     (let f = \<lfloor>x\<rfloor>; d = x - of_int f
      in if d < 1 / 2 then f
         else if 1 / 2 < d then f + 1
         else if even f then f else f + 1)"

text \<open>Python's \<^verbatim>\<open>int(x)\<close> on a finite float truncates towards zero.\<close>

definition py_int :: "rat \<Rightarrow> int" where
  "py_int x = (if 0 \<le> x then \<lfloor>x\<rfloor> else \<lceil>x\<rceil>)"

subsection \<open>Float64 and int64\<close>

text \<open>
  An operation of IEEE 754 returns the float64 nearest to its exact result, a tie going to
  the even significand. \<open>ilog2 x\<close> is the binary exponent of \<open>x\<close>, the largest \<open>e\<close> with
  \<open>2 ^ e \<le> |x|\<close>; a float64 has 53 significant bits, and below \<open>2 ^ - 1022\<close> the
  spacing stays \<open>2 ^ - 1074\<close>. A result of magnitude \<open>2 ^ 1024\<close> or more is an infinity:
  \<open>f64\<close> returns \<open>None\<close> for it.
\<close>

definition pow2 :: "int \<Rightarrow> rat" where
  "pow2 e = (if 0 \<le> e then 2 ^ nat e else 1 / 2 ^ nat (- e))"

definition ilog2 :: "rat \<Rightarrow> int" where
  "ilog2 x =
     (case quotient_of \<bar>x\<bar> of
        (p, q) \<Rightarrow> (let k = bitlen p - bitlen q in if pow2 k \<le> \<bar>x\<bar> then k else k - 1))"

definition f64r :: "rat \<Rightarrow> rat" where
  "f64r x =
     (if x = 0 then 0
      else (let e = max (ilog2 x - 52) (- 1074)
            in of_int (np_round (x / pow2 e)) * pow2 e))"

definition f64 :: "rat \<Rightarrow> rat option" where
  "f64 x = (let r = f64r x in if r = 0 \<or> ilog2 r < 1024 then Some r else None)"

text \<open>
  \<^verbatim>\<open>ndarray.astype('int')\<close> converts to int64. It does not raise: a value that is not
  finite or does not fit yields an integer that NumPy leaves unspecified, with a warning
  at most. That integer is the parameter \<open>nan_int\<close> of the model. Arithmetic on int64
  columns wraps around.
\<close>

definition int64 :: "int \<Rightarrow> bool" where
  "int64 i = (- (2 ^ 63) \<le> i \<and> i < 2 ^ 63)"

definition astype_int :: "int \<Rightarrow> int option \<Rightarrow> int" where
  "astype_int nan_int x =
     (case x of None \<Rightarrow> nan_int | Some i \<Rightarrow> if int64 i then i else nan_int)"

definition wrap64 :: "int \<Rightarrow> int" where
  "wrap64 i = (i + 2 ^ 63) mod 2 ^ 64 - 2 ^ 63"

subsection \<open>Errors\<close>

datatype error =
    FailedToAssign      \<comment> \<open>\<^verbatim>\<open>RuntimeError('Failed to assign unobserved offenses')\<close>\<close>
  | ConflictingUnobserved  \<comment> \<open>\<^verbatim>\<open>ValueError('Conflicting no. of unobserved crimes ...')\<close>\<close>
  | IntOfNonFinite      \<comment> \<open>\<^verbatim>\<open>int()\<close> of a NaN or an infinity\<close>
  | InvalidWeights      \<comment> \<open>the \<^verbatim>\<open>ValueError\<close> of \<^verbatim>\<open>Series.sample\<close> on a negative weight\<close>
  | NoSamples           \<comment> \<open>the \<^verbatim>\<open>AttributeError\<close> of \<^verbatim>\<open>.to_frame\<close> on the frame of an \<^verbatim>\<open>apply\<close> without samples\<close>
  | SizeChanged         \<comment> \<open>\<^verbatim>\<open>RuntimeError('Bug: sampling of unobserved changed the size of the data')\<close>\<close>
  | BadWindowEnd        \<comment> \<open>\<^verbatim>\<open>ValueError('Last year ... not compatible with start year ...')\<close>\<close>

section \<open>The unobserved-count estimator\<close>

text \<open>
  A row of the group table \<^verbatim>\<open>offenses\<close> of \<^verbatim>\<open>_add_unobserved\<close>: the group key (the columns
  \<^verbatim>\<open>group_all\<close>), the summed observed count, the population size and the two rate columns
  \<^verbatim>\<open>arrest_col\<close> and \<^verbatim>\<open>lambda_col\<close> of the joined rate table.
\<close>

record 'k pop_row =
  g_key :: 'k
  g_offense_count :: int
  g_pop_size :: nat
  g_arrest :: fl
  g_lambda :: fl

record 'k est_row = "'k pop_row" +
  g_total_crimes :: int
  g_unobserved_crimes :: int
  g_unobserved_per_person :: fl

text \<open>
  \<^verbatim>\<open>total_crimes = pop['offense_count'] / pop[arrest_col]\<close> followed by
  \<^verbatim>\<open>total_crimes *= pop[lambda_col] if lam is None else lam\<close>, and the selection of
  \<^verbatim>\<open>np.where(pop[arrest_col] > 0, total_crimes, pop['offense_count'])\<close>. The integer count
  becomes a float64, the quotient and the product are each rounded to float64. The
  quotient is only evaluated where the arrest rate is positive: elsewhere \<^verbatim>\<open>np.where\<close>
  discards it. The result \<open>None\<close> stands for a value that is not finite: a NaN (of a
  missing rate factor) or the infinity of an overflow.
\<close>

definition lam_factor :: "fl option \<Rightarrow> 'k pop_row \<Rightarrow> fl" where
  "lam_factor lam p = (case lam of None \<Rightarrow> g_lambda p | Some l \<Rightarrow> l)"

definition where_total :: "fl option \<Rightarrow> 'k pop_row \<Rightarrow> rat option" where
  "where_total lam p =
     (let cnt = f64r (of_int (g_offense_count p))
      in case g_arrest p of
           Fin a \<Rightarrow>
             if 0 < a then
               (case f64 (cnt / a) of
                  None \<Rightarrow> None
                | Some q \<Rightarrow> (case lam_factor lam p of NaN \<Rightarrow> None | Fin l \<Rightarrow> f64 (q * l)))
             else Some cnt
         | NaN \<Rightarrow> Some cnt)"

text \<open>
  \<^verbatim>\<open>unobserved_per_person = unobserved_crimes / pop_size\<close>. The population size counts the
  individuals of the rows a group was built from, so it is at least 1 in every table that
  \<^verbatim>\<open>_add_unobserved\<close> builds; for a size of zero the model takes the missing value that
  \<^verbatim>\<open>0 / 0\<close> gives.
\<close>

definition per_person :: "int \<Rightarrow> nat \<Rightarrow> fl" where
  "per_person u n = (if n = 0 then NaN else Fin (of_int u / of_nat n))"

text \<open>
  \<^verbatim>\<open>_count_unobserved\<close>, row by row: the selected total is rounded, converted to int64 and
  the observed count is subtracted in int64. No step of it raises.
\<close>

definition count_unobserved_row :: "int \<Rightarrow> fl option \<Rightarrow> 'k pop_row \<Rightarrow> 'k est_row" where
  "count_unobserved_row nan_int lam p =
     (let total = astype_int nan_int (map_option np_round (where_total lam p));
          unobs = wrap64 (total - g_offense_count p)
      in pop_row.extend p
           \<lparr>g_total_crimes = total, g_unobserved_crimes = unobs,
            g_unobserved_per_person = per_person unobs (g_pop_size p)\<rparr>)"

definition count_unobserved :: "int \<Rightarrow> 'k pop_row list \<Rightarrow> fl option \<Rightarrow> 'k est_row list" where
  "count_unobserved nan_int pop lam = map (count_unobserved_row nan_int lam) pop"

section \<open>The weighted sampler\<close>

text \<open>
  The melted cohort of \<^verbatim>\<open>_window\<close>: one row per individual and offense category, with
  the identity and demographic columns of the cohort provider.
\<close>

type_synonym uid = nat

record person =
  uid :: uid
  gender :: string
  race :: string
  dob :: "int \<times> int \<times> int"   \<comment> \<open>year, month, day\<close>
  age_cat :: string

record row = person +
  offense_category :: string
  offense_count :: int

text \<open>
  The cohort after the join with the group table: \<^verbatim>\<open>unobserved_crimes\<close> is an integer
  column in which a row without a partner in the left join would hold a missing value.
\<close>

record srow = row +
  unobserved_per_person :: fl
  unobserved_crimes :: "int option"
  crime_weight :: fl

record trow = srow +
  offense_unobserved :: int
  offense_total :: int

text \<open>
  The random source. \<^verbatim>\<open>RandomState.random_sample\<close> turns each 53-bit integer of the
  generator's stream into a float in \<open>[0, 1)\<close>; the stream itself (the Mersenne Twister
  started from the seed) is a parameter, the position in it is the state.
\<close>

record rng =
  stream :: "nat \<Rightarrow> nat"
  pos :: nat

definition uniform :: "rng \<Rightarrow> nat \<Rightarrow> rat" where
  "uniform g i = of_nat (stream g (pos g + i) mod 2 ^ 53) / 2 ^ 53"

definition random_sample :: "rng \<Rightarrow> nat \<Rightarrow> rat list \<times> rng" where
  "random_sample g n = (map (uniform g) [0 ..< n], g\<lparr>pos := pos g + n\<rparr>)"

fun cumsum_from :: "rat \<Rightarrow> rat list \<Rightarrow> rat list" where
  "cumsum_from acc [] = []"
| "cumsum_from acc (x # xs) = (acc + x) # cumsum_from (acc + x) xs"

definition cumsum :: "rat list \<Rightarrow> rat list" where
  "cumsum xs = cumsum_from 0 xs"

text \<open>\<^verbatim>\<open>cdf.searchsorted(u, side='right')\<close>: the first index whose entry exceeds \<open>u\<close>.\<close>

definition searchsorted_right :: "rat list \<Rightarrow> rat \<Rightarrow> nat" where
  "searchsorted_right cdf u = length (takeWhile (\<lambda>c. c \<le> u) cdf)"

text \<open>
  \<^verbatim>\<open>RandomState.choice(len, size=n, replace=True, p=p)\<close>: the cumulative sums of \<open>p\<close>,
  normalised by their last entry, are searched for \<open>n\<close> uniform variates.
\<close>

definition choice :: "rng \<Rightarrow> nat \<Rightarrow> rat list \<Rightarrow> nat list \<times> rng" where
  "choice g n p =
     (let cdf = map (\<lambda>c. c / last (cumsum p)) (cumsum p);
          (us, g') = random_sample g n
      in (map (searchsorted_right cdf) us, g'))"

text \<open>\<^verbatim>\<open>Series.sum()\<close> skips missing values.\<close>

definition fl_sum :: "fl list \<Rightarrow> rat" where
  "fl_sum xs = sum_list (map (\<lambda>x. case x of NaN \<Rightarrow> 0 | Fin a \<Rightarrow> a) xs)"

text \<open>
  \<^verbatim>\<open>Series.sample(n, replace=True, weights, random_state)\<close>: a missing weight counts as
  zero, a negative weight or a zero sum is rejected, the weights are normalised and the
  drawn positions are taken from the series.
\<close>

definition pd_sample :: "'a list \<Rightarrow> nat \<Rightarrow> fl list \<Rightarrow> rng \<Rightarrow> error + ('a list \<times> rng)" where
  "pd_sample xs n weights g =
     (let ws = map (\<lambda>x. case x of NaN \<Rightarrow> 0 | Fin a \<Rightarrow> a) weights
      in if (\<exists>w \<in> set ws. w < 0) \<or> sum_list ws = 0 then Inl InvalidWeights
         else (let (idx, g') = choice g n (map (\<lambda>w. w / sum_list ws) ws)
               in Inr (map (\<lambda>i. xs ! i) idx, g')))"

text \<open>\<^verbatim>\<open>list(Counter(samples).items())\<close>: the drawn values in order of first draw, each with its count.\<close>

definition counter :: "'a list \<Rightarrow> ('a \<times> nat) list" where
  "counter xs = map (\<lambda>x. (x, count_list xs x)) (rev (remdups (rev xs)))"

text \<open>\<^verbatim>\<open>Series.nunique()\<close> and \<^verbatim>\<open>Series.mean()\<close> skip missing values.\<close>

definition present :: "'a option list \<Rightarrow> 'a list" where
  "present xs = concat (map (\<lambda>x. case x of None \<Rightarrow> [] | Some v \<Rightarrow> [v]) xs)"

definition nunique :: "'a option list \<Rightarrow> nat" where
  "nunique xs = length (remdups (present xs))"

definition mean :: "int option list \<Rightarrow> fl" where
  "mean xs =
     (if present xs = [] then NaN
      else Fin (of_int (sum_list (present xs)) / of_nat (length (present xs))))"

text \<open>
  The inner function \<^verbatim>\<open>_sample(group)\<close> of \<^verbatim>\<open>_sample_unobserved\<close>. \<^verbatim>\<open>None\<close> is returned for
  a group without samples. \<^verbatim>\<open>int()\<close> raises on a NaN and on the infinity of a division by
  zero.
\<close>

definition sample_group ::
  "rat \<Rightarrow> srow list \<Rightarrow> rng \<Rightarrow> error + ((uid \<times> nat) list option \<times> rng)" where
  "sample_group n_samples_div grp g =
     (if 1 < nunique (map unobserved_crimes grp) then Inl ConflictingUnobserved
      else
        (case mean (map unobserved_crimes grp) of
           NaN \<Rightarrow> Inl IntOfNonFinite
         | Fin m \<Rightarrow>
             if n_samples_div = 0 then Inl IntOfNonFinite
             else
               (let n_samples = py_int (m / n_samples_div)
                in if fl_sum (map crime_weight grp) \<le> 0 \<or> n_samples < 1 then Inr (None, g)
                   else
                     (case pd_sample (map uid grp) (nat n_samples) (map crime_weight grp) g of
                        Inl e \<Rightarrow> Inl e
                      | Inr (samples, g') \<Rightarrow> Inr (Some (counter samples), g')))))"

text \<open>\<^verbatim>\<open>df.groupby(keys)\<close>: the groups in ascending order of their key, rows in frame order.\<close>

definition groupby :: "('a \<Rightarrow> 'k::linorder) \<Rightarrow> 'a list \<Rightarrow> ('k \<times> 'a list) list" where
  "groupby key df = map (\<lambda>k. (k, filter (\<lambda>r. key r = k) df)) (sort (remdups (map key df)))"

text \<open>
  \<^verbatim>\<open>df.groupby(groups).apply(_sample)\<close>: \<^verbatim>\<open>_sample\<close> is applied group by group with the one
  random source; an exception of a group ends the call.
\<close>

fun apply_sample ::
  "rat \<Rightarrow> ('k \<times> srow list) list \<Rightarrow> rng
     \<Rightarrow> error + (('k \<times> (uid \<times> nat) list option) list \<times> rng)" where
  "apply_sample n_samples_div [] g = Inr ([], g)"
| "apply_sample n_samples_div ((k, grp) # rest) g =
     (case sample_group n_samples_div grp g of
        Inl e \<Rightarrow> Inl e
      | Inr (res, g') \<Rightarrow>
          (case apply_sample n_samples_div rest g' of
             Inl e \<Rightarrow> Inl e
           | Inr (results, g'') \<Rightarrow> Inr ((k, res) # results, g'')))"

text \<open>
  The groups without samples are removed and the lists of pairs are exploded into rows
  (group key, \<^verbatim>\<open>def.uid\<close>, \<^verbatim>\<open>offense_unobserved\<close>).
\<close>

definition explode :: "('k \<times> (uid \<times> nat) list option) list \<Rightarrow> ('k \<times> uid \<times> nat) list" where
  "explode results =
     concat (map (\<lambda>(k, res). case res of None \<Rightarrow> [] | Some items \<Rightarrow> map (\<lambda>(u, c). (k, u, c)) items)
       results)"

text \<open>
  \<^verbatim>\<open>_sample_unobserved\<close>. When at least one group returns samples, \<^verbatim>\<open>apply\<close> returns the
  series of the groups' results. When no group does (every group returns \<^verbatim>\<open>None\<close>, or
  the frame has no rows), it returns an empty frame instead, and \<^verbatim>\<open>.to_frame('def.uid')\<close>
  raises.
\<close>

definition sample_unobserved ::
  "srow list \<Rightarrow> (srow \<Rightarrow> 'k::linorder) \<Rightarrow> rat \<Rightarrow> rng \<Rightarrow> error + (('k \<times> uid \<times> nat) list \<times> rng)" where
  "sample_unobserved df groups n_samples_div g =
     (case apply_sample n_samples_div (groupby groups df) g of
        Inl e \<Rightarrow> Inl e
      | Inr (results, g') \<Rightarrow>
          if list_all (\<lambda>(k, res). res = None) results then Inl NoSamples
          else Inr (explode results, g'))"

section \<open>Adding the unobserved offenses to one partition\<close>

text \<open>
  The constants \<^verbatim>\<open>NEULAW_TO_NCVS\<close>, \<^verbatim>\<open>NEULAW_TO_NSDUH\<close> and \<^verbatim>\<open>CRIMES_GROUP\<close> of
  \<^verbatim>\<open>cj_pipeline.config\<close> are lists of column names. A list \<^verbatim>\<open>group_all\<close> enters the model
  as the function that projects a cohort row to its values in these columns, and the list
  \<^verbatim>\<open>groups\<close> (\<^verbatim>\<open>group_all\<close> without \<^verbatim>\<open>offense_category\<close>) as the function \<open>groups_of\<close> that
  projects such a key further. A row of a rate table carries its key in the columns
  \<^verbatim>\<open>CRIMES_GROUP\<close> and the two rate columns the caller selects.
\<close>

record 'k rate_row =
  r_key :: 'k
  r_arrest :: fl
  r_lambda :: fl

text \<open>
  The table \<^verbatim>\<open>offenses\<close> before the estimator runs: the observed counts summed per group,
  the number of distinct individuals of the demographic group, and the left join with the
  rate table, which yields one row per matching rate row and missing rates without one.
\<close>

definition offenses_table ::
  "(row \<Rightarrow> 'k::linorder) \<Rightarrow> ('k \<Rightarrow> 'd) \<Rightarrow> 'k rate_row list \<Rightarrow> row list \<Rightarrow> 'k pop_row list" where
  "offenses_table group_all groups_of crimes df =
     concat (map
       (\<lambda>(k, rows).
          (let cnt = sum_list (map offense_count rows);
               n = length (remdups (map uid
                     (filter (\<lambda>r. groups_of (group_all r) = groups_of k) df)))
           in case filter (\<lambda>c. r_key c = k) crimes of
                [] \<Rightarrow> [\<lparr>g_key = k, g_offense_count = cnt, g_pop_size = n,
                        g_arrest = NaN, g_lambda = NaN\<rparr>]
              | cs \<Rightarrow> map (\<lambda>c. \<lparr>g_key = k, g_offense_count = cnt, g_pop_size = n,
                                  g_arrest = r_arrest c, g_lambda = r_lambda c\<rparr>) cs))
       (groupby group_all df))"

text \<open>
  The left join of the cohort with the estimated group table on \<^verbatim>\<open>group_all\<close>, and
  \<^verbatim>\<open>crime_weight = unobserved_per_person + omega * offense_count\<close>.
\<close>

definition weigh :: "rat \<Rightarrow> row \<Rightarrow> fl \<Rightarrow> int option \<Rightarrow> srow" where
  "weigh omega r upp uc =
     row.extend r
       \<lparr>unobserved_per_person = upp, unobserved_crimes = uc,
        crime_weight = fl_add upp (Fin (omega * of_int (offense_count r)))\<rparr>"

definition merge_offenses :: "(row \<Rightarrow> 'k) \<Rightarrow> row list \<Rightarrow> 'k est_row list \<Rightarrow> rat \<Rightarrow> srow list" where
  "merge_offenses group_all df offenses omega =
     concat (map
       (\<lambda>r. case filter (\<lambda>e. g_key e = group_all r) offenses of
               [] \<Rightarrow> [weigh omega r NaN None]
             | es \<Rightarrow> map (\<lambda>e. weigh omega r (g_unobserved_per_person e)
                                  (Some (g_unobserved_crimes e))) es)
       df)"

text \<open>
  The left join with the samples on \<^verbatim>\<open>group_all + ['def.uid']\<close>, the missing counts filled
  with zero, and \<^verbatim>\<open>offense_total = offense_count + offense_unobserved\<close>.
\<close>

definition with_total :: "srow \<Rightarrow> int \<Rightarrow> trow" where
  "with_total r c =
     srow.extend r \<lparr>offense_unobserved = c, offense_total = offense_count r + c\<rparr>"

definition merge_samples :: "(row \<Rightarrow> 'k) \<Rightarrow> srow list \<Rightarrow> ('k \<times> uid \<times> nat) list \<Rightarrow> trow list" where
  "merge_samples group_all df samples =
     concat (map
       (\<lambda>r. case filter (\<lambda>(k, u, c). k = group_all (row.truncate r) \<and> u = uid r) samples of
               [] \<Rightarrow> [with_total r 0]
             | ms \<Rightarrow> map (\<lambda>(k, u, c). with_total r (int c)) ms)
       df)"

text \<open>
  \<^verbatim>\<open>_add_unobserved\<close>. The two warnings that log groups with missing or non-positive
  arrest rates do not change the result and are left out.
\<close>

definition add_unobserved ::
  "int \<Rightarrow> row list \<Rightarrow> (row \<Rightarrow> 'k::linorder) \<Rightarrow> ('k \<Rightarrow> 'd) \<Rightarrow> 'k rate_row list \<Rightarrow> fl option
     \<Rightarrow> rat \<Rightarrow> rat \<Rightarrow> rng \<Rightarrow> error + (trow list \<times> rng)" where
  "add_unobserved nan_int df group_all groups_of crimes lam omega n_samples_div g =
     (let offenses = count_unobserved nan_int (offenses_table group_all groups_of crimes df) lam
      in if \<exists>e \<in> set offenses. isna (g_unobserved_per_person e) then Inl FailedToAssign
         else
           (let df' = merge_offenses group_all df offenses omega
            in case sample_unobserved df' (\<lambda>r. group_all (row.truncate r)) n_samples_div g of
                 Inl e \<Rightarrow> Inl e
               | Inr (samples, g') \<Rightarrow> Inr (merge_samples group_all df' samples, g')))"

section \<open>The window assembler\<close>

text \<open>
  The closure \<^verbatim>\<open>_window\<close> of \<^verbatim>\<open>_window_sampler\<close> captures the parameters of the run and the
  three data generators, which are not part of this module and enter as functions of the
  year. Each call of a generator is recorded in a log, which the model returns with the
  outcome.
\<close>

record wide_row = person +
  counts :: "string \<Rightarrow> int"

record out_row = person +
  totals :: "string \<Rightarrow> fl"

datatype load = Neulaw int | Ncvs int | Nsduh int

record ('k, 'd) sampler =
  s_start_year :: int
  s_end_year :: int
  s_window :: int
  s_lam :: "fl option"
  s_omega :: rat
  s_nan_int :: int                          \<comment> \<open>what the int64 conversion yields for a NaN\<close>
  s_crimes :: "string list"                 \<comment> \<open>\<^verbatim>\<open>CRIMES\<close>\<close>
  s_neulaw_to_ncvs :: "row \<Rightarrow> 'k"           \<comment> \<open>\<^verbatim>\<open>NEULAW_TO_NCVS\<close>\<close>
  s_groups_ncvs :: "'k \<Rightarrow> 'd"
  s_neulaw_to_nsduh :: "row \<Rightarrow> 'k"          \<comment> \<open>\<^verbatim>\<open>NEULAW_TO_NSDUH\<close>\<close>
  s_groups_nsduh :: "'k \<Rightarrow> 'd"
  neulaw_gen :: "int \<Rightarrow> wide_row list"
  ncvs_gen :: "int \<Rightarrow> 'k rate_row list"
  nsduh_gen :: "int \<Rightarrow> 'k rate_row list"

text \<open>\<^verbatim>\<open>df.melt\<close>: for each crime column in turn, one row per row of the wide frame.\<close>

definition melt :: "string list \<Rightarrow> wide_row list \<Rightarrow> row list" where
  "melt crimes df =
     concat (map
       (\<lambda>c. map (\<lambda>w. \<lparr>uid = uid w, gender = gender w, race = race w, dob = dob w,
                       age_cat = age_cat w, offense_category = c,
                       offense_count = counts w c\<rparr>) df)
       crimes)"

definition nsduh_ids :: "row \<Rightarrow> bool" where
  "nsduh_ids r = (offense_category r \<in> set [''dui'', ''drugs_use'', ''drugs_sell''])"

text \<open>
  \<^verbatim>\<open>_window\<close> up to the check of the row count: the long frame recombined from the two
  partitions, which share the random source in this order.
\<close>

definition window_long ::
  "('k::linorder, 'd) sampler \<Rightarrow> int \<Rightarrow> rat \<Rightarrow> rng \<Rightarrow> load list \<times> (error + (trow list \<times> rng))" where
  "window_long s window_end n_samples_div g =
     (let year = window_end - s_window s
      in if \<not> (s_start_year s \<le> year \<and> year \<le> s_end_year s) then ([], Inl BadWindowEnd)
         else
           (let df = melt (s_crimes s) (neulaw_gen s year);
                ncvs = ncvs_gen s year;
                nsduh = nsduh_gen s year;
                len_before = length df
            in ([Neulaw year, Ncvs year, Nsduh year],
                case add_unobserved (s_nan_int s) (filter (\<lambda>r. \<not> nsduh_ids r) df)
                       (s_neulaw_to_ncvs s)
                       (s_groups_ncvs s) ncvs (s_lam s) (s_omega s) n_samples_div g of
                  Inl e \<Rightarrow> Inl e
                | Inr (a, g') \<Rightarrow>
                    (case add_unobserved (s_nan_int s) (filter nsduh_ids df)
                            (s_neulaw_to_nsduh s)
                            (s_groups_nsduh s) nsduh (s_lam s) (s_omega s) n_samples_div g' of
                       Inl e \<Rightarrow> Inl e
                     | Inr (b, g'') \<Rightarrow>
                         if length (a @ b) \<noteq> len_before then Inl SizeChanged
                         else Inr (a @ b, g'')))))"

text \<open>
  \<^verbatim>\<open>pd.pivot_table\<close> with \<^verbatim>\<open>sort=False\<close>: one row per individual in order of first
  appearance, one column per offense category, holding the mean of \<^verbatim>\<open>offense_total\<close>.
\<close>

definition pivot_table :: "trow list \<Rightarrow> out_row list" where
  "pivot_table df =
     map (\<lambda>p. person.extend p
            \<lparr>totals = (\<lambda>c. mean (map (\<lambda>r. Some (offense_total r))
                         (filter (\<lambda>r. person.truncate r = p \<and> offense_category r = c) df)))\<rparr>)
         (rev (remdups (rev (map person.truncate df))))"

definition window ::
  "('k::linorder, 'd) sampler \<Rightarrow> int \<Rightarrow> rat \<Rightarrow> rng \<Rightarrow> load list \<times> (error + (out_row list \<times> rng))" where
  "window s window_end n_samples_div g =
     (case window_long s window_end n_samples_div g of
        (loads, Inl e) \<Rightarrow> (loads, Inl e)
      | (loads, Inr (df, g')) \<Rightarrow> (loads, Inr (pivot_table df, g')))"

section \<open>The age category of the rolling output\<close>

text \<open>Days since 1970-01-01 of a date of the proleptic Gregorian calendar.\<close>

definition days_from_civil :: "int \<times> int \<times> int \<Rightarrow> int" where
  "days_from_civil ymd =
     (case ymd of (y, m, d) \<Rightarrow>
        (let y' = (if m \<le> 2 then y - 1 else y);
             era = y' div 400;
             yoe = y' - era * 400;
             mp = (m + 9) mod 12;
             doy = (153 * mp + 2) div 5 + d - 1;
             doe = yoe * 365 + yoe div 4 - yoe div 100 + doy
         in era * 146097 + doe - 719468))"

text \<open>
  \<^verbatim>\<open>age = (pd.to_datetime(str(end_year)) - pd.to_datetime(df['def.dob'])).dt.days / 365.25\<close>:
  the year alone parses to its first of January.
\<close>

definition age_of :: "int \<Rightarrow> int \<times> int \<times> int \<Rightarrow> rat" where
  "age_of end_year birth =
     of_int (days_from_civil (end_year, 1, 1) - days_from_civil birth) / (1461 / 4)"

text \<open>
  \<^verbatim>\<open>pd.cut(age, right=True, bins=[0, 17, 29, 500], labels=['< 18', '18-29', '> 29'])\<close>:
  the intervals are closed on the right, and a value in none of them is missing, which
  \<^verbatim>\<open>astype('str')\<close> turns into the string \<^verbatim>\<open>nan\<close>.
\<close>

definition cut_age :: "rat \<Rightarrow> string" where
  "cut_age age =
     (if 0 < age \<and> age \<le> 17 then ''< 18''
      else if 17 < age \<and> age \<le> 29 then ''18-29''
      else if 29 < age \<and> age \<le> 500 then ''> 29''
      else ''nan'')"

definition add_age :: "'a person_scheme list \<Rightarrow> int \<Rightarrow> 'a person_scheme list" where
  "add_age df end_year =
     filter (\<lambda>r. age_cat r \<noteq> ''< 18'')
       (map (\<lambda>r. r\<lparr>age_cat := cut_age (age_of end_year (dob r))\<rparr>)
          (filter (\<lambda>r. 10 < age_of end_year (dob r)) df))"

section \<open>The specification's formulas and example inputs\<close>

text \<open>
  The total the specification states for a group with a positive arrest rate: the
  observed count divided by the arrest rate without an override, and divided by the
  override otherwise, rounded. It is compared with \<open>count_unobserved\<close> below.
\<close>

definition spec_total_crimes :: "rat option \<Rightarrow> int \<Rightarrow> rat \<Rightarrow> int" where
  "spec_total_crimes lam observed_count arrest_rate =
     (case lam of
        None \<Rightarrow> np_round (of_int observed_count / arrest_rate)
      | Some l \<Rightarrow> np_round (of_int observed_count / l))"

definition ex_pop :: "nat pop_row list" where
  "ex_pop =
     [\<lparr>g_key = 0, g_offense_count = 10, g_pop_size = 2, g_arrest = Fin (1 / 2),
       g_lambda = Fin (1 / 2)\<rparr>,
      \<lparr>g_key = 1, g_offense_count = 7, g_pop_size = 3, g_arrest = Fin 0, g_lambda = Fin 1\<rparr>]"

text \<open>
  A table whose first group has the count 3, the arrest rate 0.7 and the rate factor
  0.35 (the float64 nearest to each): the exact product of the count and the two rates is
  3/2, the float64 product lies below it.
\<close>

definition ex_pop_f64 :: "nat pop_row list" where
  "ex_pop_f64 =
     [\<lparr>g_key = 0, g_offense_count = 3, g_pop_size = 2,
       g_arrest = Fin (3152519739159347 / 4503599627370496),
       g_lambda = Fin (3152519739159347 / 9007199254740992)\<rparr>,
      \<lparr>g_key = 1, g_offense_count = 7, g_pop_size = 3, g_arrest = Fin 0, g_lambda = Fin 1\<rparr>,
      \<lparr>g_key = 2, g_offense_count = 10, g_pop_size = 2, g_arrest = Fin (1 / 2),
       g_lambda = Fin 1\<rparr>]"



text \<open>Example inputs: a random source, cohort rows and groups of the joined cohort.\<close>

definition ex_rng :: rng where
  "ex_rng = \<lparr>stream = (\<lambda>i. i * 2 ^ 51), pos = 0\<rparr>"

definition ex_row :: "uid \<Rightarrow> string \<Rightarrow> int \<Rightarrow> row" where
  "ex_row u c n =
     \<lparr>uid = u, gender = ''M'', race = ''W'', dob = (1980, 1, 1), age_cat = ''> 29'',
      offense_category = c, offense_count = n\<rparr>"

definition ex_grp :: "srow list" where
  "ex_grp =
     [weigh 1 (ex_row 1 ''robbery'' 10) (Fin (7 / 2)) (Some 7),
      weigh 1 (ex_row 2 ''robbery'' 0) (Fin (7 / 2)) (Some 7)]"

definition ex_conflict :: "srow list" where
  "ex_conflict =
     [weigh 1 (ex_row 1 ''robbery'' 10) (Fin (3 / 2)) (Some 3),
      weigh 1 (ex_row 2 ''robbery'' 0) (Fin (5 / 2)) (Some 5)]"

text \<open>
  The group key of the examples, the offense category with the demographic columns, and
  its rate rows; the key without the offense category is its second component.
\<close>

definition ex_key :: "row \<Rightarrow> string \<times> string \<times> string \<times> string" where
  "ex_key r = (offense_category r, age_cat r, gender r, race r)"

definition ex_rate :: "string \<Rightarrow> fl \<Rightarrow> fl \<Rightarrow> (string \<times> string \<times> string \<times> string) rate_row" where
  "ex_rate c a l = \<lparr>r_key = (c, ''> 29'', ''M'', ''W''), r_arrest = a, r_lambda = l\<rparr>"

definition ex_df :: "row list" where
  "ex_df = [ex_row 1 ''robbery'' 10, ex_row 2 ''robbery'' 0]"

definition ex_rates :: "(string \<times> string \<times> string \<times> string) rate_row list" where
  "ex_rates = [ex_rate ''robbery'' (Fin (1 / 2)) (Fin 1)]"

text \<open>A partition without observed offenses: the estimate of its only group is zero.\<close>

definition ex_df_zero :: "row list" where
  "ex_df_zero = [ex_row 1 ''robbery'' 0, ex_row 2 ''robbery'' 0]"

definition ex_df_mixed :: "row list" where
  "ex_df_mixed = ex_df @ [ex_row 1 ''assault'' 10, ex_row 2 ''assault'' 0]"

definition ex_rates_mixed :: "(string \<times> string \<times> string \<times> string) rate_row list" where
  "ex_rates_mixed = ex_rates @ [ex_rate ''assault'' (Fin 1) (Fin (1 / 2))]"

text \<open>
  An example run: two individuals, two offense categories (one per rate source), the
  window of three years that starts in 2000, and the same run with a rate table that
  holds its only row twice.
\<close>

definition ex_df_dui :: "row list" where
  "ex_df_dui = [ex_row 1 ''dui'' 2, ex_row 2 ''dui'' 3]"

definition ex_wide :: "uid \<Rightarrow> int \<Rightarrow> int \<Rightarrow> wide_row" where
  "ex_wide u n_robbery n_dui =
     \<lparr>uid = u, gender = ''M'', race = ''W'', dob = (1980, 1, 1), age_cat = ''> 29'',
      counts = (\<lambda>c. if c = ''robbery'' then n_robbery else if c = ''dui'' then n_dui else 0)\<rparr>"

definition ex_rates_dui :: "(string \<times> string \<times> string \<times> string) rate_row list" where
  "ex_rates_dui = [ex_rate ''dui'' (Fin (1 / 2)) (Fin 1)]"

definition ex_sampler ::
  "(string \<times> string \<times> string \<times> string, string \<times> string \<times> string) sampler" where
  "ex_sampler =
     \<lparr>s_start_year = 2000, s_end_year = 2010, s_window = 3, s_lam = None, s_omega = 1,
      s_nan_int = 0,
      s_crimes = [''robbery'', ''dui''],
      s_neulaw_to_ncvs = ex_key, s_groups_ncvs = snd,
      s_neulaw_to_nsduh = ex_key, s_groups_nsduh = snd,
      neulaw_gen = (\<lambda>year. [ex_wide 1 10 2, ex_wide 2 0 3]),
      ncvs_gen = (\<lambda>year. ex_rates),
      nsduh_gen = (\<lambda>year. ex_rates_dui)\<rparr>"

definition ex_sampler_dup ::
  "(string \<times> string \<times> string \<times> string, string \<times> string \<times> string) sampler" where
  "ex_sampler_dup = ex_sampler\<lparr>ncvs_gen := (\<lambda>year. ex_rates @ ex_rates)\<rparr>"


text \<open>The columns of a result that the examples below inspect, with the random source.\<close>

definition summary ::
  "error + (trow list \<times> rng)
     \<Rightarrow> error + ((uid \<times> string \<times> int option \<times> int \<times> int) list \<times> rng)" where
  "summary res =
     map_sum id
       (\<lambda>(out, g). (map (\<lambda>r. (uid r, offense_category r, unobserved_crimes r,
                                 offense_unobserved r, offense_total r)) out, g))
       res"

section \<open>Properties of the estimator\<close>

subsection \<open>Float64 rounding of integers\<close>

lemma pow2_pos: "0 < pow2 e"
  by (simp add: pow2_def)

lemma pow2_nat: "pow2 (int n) = 2 ^ n"
  by (simp add: pow2_def)

lemma pow2_mono: "a \<le> b \<Longrightarrow> pow2 a \<le> pow2 b"
proof -
  assume ab: "a \<le> b"
  have "pow2 e = 2 powi e" for e
    by (simp add: pow2_def power_int_def inverse_eq_divide power_one_over)
  with ab show ?thesis by (simp add: power_int_increasing)
qed

lemma ilog2_le: assumes "x \<noteq> 0" shows "pow2 (ilog2 x) \<le> \<bar>x\<bar>"
proof -
  obtain p q where pq: "quotient_of \<bar>x\<bar> = (p, q)" by (cases "quotient_of \<bar>x\<bar>")
  then have q: "0 < q" by (rule quotient_of_denom_pos)
  from pq have x: "\<bar>x\<bar> = of_int p / of_int q" by (rule quotient_of_div)
  from assms have "0 < \<bar>x\<bar>" by simp
  with x q have p: "0 < p" by (simp add: zero_less_divide_iff)
  let ?k = "bitlen p - bitlen q"
  show ?thesis
  proof (cases "pow2 ?k \<le> \<bar>x\<bar>")
    case True
    with pq show ?thesis by (simp add: ilog2_def Let_def)
  next
    case False
    from bitlen_bounds [OF p] have pl: "2 ^ nat (bitlen p - 1) \<le> p" by simp
    from bitlen_bounds [OF q] have qu: "q < 2 ^ nat (bitlen q)" by simp
    have bp: "1 \<le> bitlen p"
    proof -
      from p have "bitlen p \<noteq> 0" by (simp add: bitlen_eq_zero_iff)
      with bitlen_nonneg [of p] show ?thesis by simp
    qed
    have bq: "0 \<le> bitlen q" by (rule bitlen_nonneg)
    have "pow2 (?k - 1) * of_int q \<le> pow2 (?k - 1) * 2 ^ nat (bitlen q)"
    proof -
      from qu have "(of_int q :: rat) \<le> of_int (2 ^ nat (bitlen q))"
        by (simp only: of_int_le_iff)
      then show ?thesis using pow2_pos [of "?k - 1"] by simp
    qed
    also have "\<dots> = pow2 (?k - 1) * pow2 (bitlen q)"
      using bq by (simp add: pow2_def)
    also have "\<dots> = pow2 (bitlen p - 1)"
    proof -
      have e: "pow2 e = 2 powi e" for e
        by (simp add: pow2_def power_int_def inverse_eq_divide power_one_over)
      have "(2::rat) powi (?k - 1) * 2 powi (bitlen q) = 2 powi ((?k - 1) + bitlen q)"
        by (rule power_int_add [symmetric]) simp
      also have "(?k - 1) + bitlen q = bitlen p - 1" by simp
      finally show ?thesis by (simp only: e)
    qed
    also have "\<dots> = 2 ^ nat (bitlen p - 1)" using bp by (simp add: pow2_def)
    also have "\<dots> \<le> of_int p"
    proof -
      from pl have "(of_int (2 ^ nat (bitlen p - 1)) :: rat) \<le> of_int p"
        by (simp only: of_int_le_iff)
      then show ?thesis by simp
    qed
    finally have "pow2 (?k - 1) \<le> of_int p / of_int q"
      using q by (simp add: pos_le_divide_eq)
    with x False pq show ?thesis by (simp add: ilog2_def Let_def)
  qed
qed

lemma np_round_of_int: "np_round (of_int m) = m"
  by (simp add: np_round_def)

lemma ilog2_int_less:
  assumes "n \<noteq> 0" "\<bar>n\<bar> < 2 ^ 53"
  shows "ilog2 (of_int n) < 53"
proof (rule ccontr)
  assume "\<not> ilog2 (of_int n) < 53"
  then have "53 \<le> ilog2 (of_int n)" by simp
  then have "pow2 53 \<le> pow2 (ilog2 (of_int n))" by (rule pow2_mono)
  also have "\<dots> \<le> \<bar>of_int n\<bar>" using assms(1) by (intro ilog2_le) simp
  finally have "(2::rat) ^ 53 \<le> of_int \<bar>n\<bar>" by (simp add: pow2_def)
  then have "(of_int (2 ^ 53) :: rat) \<le> of_int \<bar>n\<bar>" by simp
  then have "2 ^ 53 \<le> \<bar>n\<bar>" by (simp only: of_int_le_iff)
  with assms(2) show False by simp
qed

lemma f64r_of_int:
  assumes "\<bar>n\<bar> < 2 ^ 53"
  shows "f64r (of_int n) = of_int n"
proof (cases "n = 0")
  case True
  then show ?thesis by (simp add: f64r_def)
next
  case False
  define e where "e = max (ilog2 (of_int n) - 52) (- 1074)"
  from ilog2_int_less [OF False assms] have e: "e \<le> 0" by (simp add: e_def)
  then have p: "pow2 e = 1 / 2 ^ nat (- e)" by (cases "e = 0") (simp_all add: pow2_def)
  have "of_int n / pow2 e = (of_int (n * 2 ^ nat (- e)) :: rat)" by (simp add: p)
  then have "np_round (of_int n / pow2 e) = n * 2 ^ nat (- e)"
    by (simp only: np_round_of_int)
  then have "of_int (np_round (of_int n / pow2 e)) * pow2 e = (of_int n :: rat)"
    by (simp add: p)
  with False show ?thesis by (simp add: f64r_def Let_def e_def)
qed

lemma f64_of_int:
  assumes "\<bar>n\<bar> < 2 ^ 53"
  shows "f64 (of_int n) = Some (of_int n)"
proof (cases "n = 0")
  case True
  then show ?thesis by (simp add: f64_def f64r_def)
next
  case False
  from ilog2_int_less [OF False assms] f64r_of_int [OF assms] show ?thesis
    by (simp add: f64_def Let_def)
qed

lemma f64r_numeral: "numeral n < (2::int) ^ 53 \<Longrightarrow> f64r (numeral n) = numeral n"
  using f64r_of_int [of "numeral n"] by simp

lemma f64_numeral: "numeral n < (2::int) ^ 53 \<Longrightarrow> f64 (numeral n) = Some (numeral n)"
  using f64_of_int [of "numeral n"] by simp

lemma f64r_zero: "f64r 0 = 0" by (simp add: f64r_def)
lemma f64_zero: "f64 0 = Some 0" by (simp add: f64_def f64r_def)

subsection \<open>The rows of the estimator\<close>

lemma wrap64_id: "int64 i \<Longrightarrow> wrap64 i = i"
  by (simp add: int64_def wrap64_def)

lemma int64_small: "\<bar>n\<bar> < 2 ^ 53 \<Longrightarrow> int64 n"
  by (simp add: int64_def abs_less_iff)

lemma count_unobserved_row_simps:
  "g_key (count_unobserved_row nan_int lam p) = g_key p"
  "g_offense_count (count_unobserved_row nan_int lam p) = g_offense_count p"
  "g_pop_size (count_unobserved_row nan_int lam p) = g_pop_size p"
  "g_total_crimes (count_unobserved_row nan_int lam p)
     = astype_int nan_int (map_option np_round (where_total lam p))"
  "g_unobserved_crimes (count_unobserved_row nan_int lam p)
     = wrap64 (g_total_crimes (count_unobserved_row nan_int lam p) - g_offense_count p)"
  "g_unobserved_per_person (count_unobserved_row nan_int lam p)
     = per_person (g_unobserved_crimes (count_unobserved_row nan_int lam p)) (g_pop_size p)"
  by (simp_all add: count_unobserved_row_def Let_def pop_row.extend_def)

lemma where_total_pos:
  assumes "g_arrest p = Fin a" "0 < a" "lam_factor lam p = Fin l"
    and "\<bar>g_offense_count p\<bar> < 2 ^ 53"
    and "f64 (of_int (g_offense_count p) / a) = Some q" "f64 (q * l) = Some t"
  shows "where_total lam p = Some t"
  using assms by (simp add: where_total_def Let_def f64r_of_int)

lemma where_total_nonpos:
  assumes "\<not> fl_pos (g_arrest p)"
  shows "where_total lam p = Some (f64r (of_int (g_offense_count p)))"
proof (cases "g_arrest p")
  case NaN
  then show ?thesis by (simp add: where_total_def Let_def)
next
  case (Fin a)
  with assms have "\<not> 0 < a" by simp
  with Fin show ?thesis by (simp add: where_total_def Let_def)
qed


lemma count_unobserved_length: "length (count_unobserved nan_int pop lam) = length pop"
  by (simp add: count_unobserved_def)

lemma count_unobserved_nth:
  "i < length pop \<Longrightarrow>
     count_unobserved nan_int pop lam ! i = count_unobserved_row nan_int lam (pop ! i)"
  by (simp add: count_unobserved_def)

text \<open>
  C1, as the code has it. The estimator returns one row per group, in the order of the
  groups. For a group with a positive arrest rate \<open>a\<close> and the rate factor \<open>l\<close> (the
  group's value in the lambda column without an override, the override \<^verbatim>\<open>lam\<close>
  otherwise), the total is computed in float64: \<open>q\<close> is the float64 quotient of the
  observed count by \<open>a\<close>, \<open>t\<close> the float64 product of \<open>q\<close> and \<open>l\<close>, and the total is \<open>t\<close>
  rounded to the nearest integer, ties to even (when that integer fits int64; the
  observed count is taken below \<open>2 ^ 53\<close>, where its conversion to float64 is exact). For
  an arrest rate that is not positive (zero, negative or missing) the total is the
  observed count. The unobserved count is the total minus the observed count in int64
  arithmetic, which is their difference whenever that fits.
\<close>

theorem count_unobserved_total_crimes:
  "length (count_unobserved nan_int pop lam) = length pop \<and>
   (\<forall>i < length pop.
      g_key (count_unobserved nan_int pop lam ! i) = g_key (pop ! i) \<and>
      (\<forall>a l q t.
         g_arrest (pop ! i) = Fin a \<and> 0 < a \<and> lam_factor lam (pop ! i) = Fin l \<and>
         \<bar>g_offense_count (pop ! i)\<bar> < 2 ^ 53 \<and>
         f64 (of_int (g_offense_count (pop ! i)) / a) = Some q \<and> f64 (q * l) = Some t \<and>
         int64 (np_round t) \<longrightarrow>
           g_total_crimes (count_unobserved nan_int pop lam ! i) = np_round t) \<and>
      (\<not> fl_pos (g_arrest (pop ! i)) \<and> \<bar>g_offense_count (pop ! i)\<bar> < 2 ^ 53 \<longrightarrow>
         g_total_crimes (count_unobserved nan_int pop lam ! i) = g_offense_count (pop ! i)) \<and>
      g_unobserved_crimes (count_unobserved nan_int pop lam ! i)
        = wrap64 (g_total_crimes (count_unobserved nan_int pop lam ! i)
                    - g_offense_count (pop ! i)) \<and>
      (int64 (g_total_crimes (count_unobserved nan_int pop lam ! i) - g_offense_count (pop ! i))
         \<longrightarrow> g_unobserved_crimes (count_unobserved nan_int pop lam ! i)
               = g_total_crimes (count_unobserved nan_int pop lam ! i)
                   - g_offense_count (pop ! i)))"
proof (rule conjI)
  show "length (count_unobserved nan_int pop lam) = length pop"
    by (rule count_unobserved_length)
next
  show "\<forall>i < length pop.
      g_key (count_unobserved nan_int pop lam ! i) = g_key (pop ! i) \<and>
      (\<forall>a l q t.
         g_arrest (pop ! i) = Fin a \<and> 0 < a \<and> lam_factor lam (pop ! i) = Fin l \<and>
         \<bar>g_offense_count (pop ! i)\<bar> < 2 ^ 53 \<and>
         f64 (of_int (g_offense_count (pop ! i)) / a) = Some q \<and> f64 (q * l) = Some t \<and>
         int64 (np_round t) \<longrightarrow>
           g_total_crimes (count_unobserved nan_int pop lam ! i) = np_round t) \<and>
      (\<not> fl_pos (g_arrest (pop ! i)) \<and> \<bar>g_offense_count (pop ! i)\<bar> < 2 ^ 53 \<longrightarrow>
         g_total_crimes (count_unobserved nan_int pop lam ! i) = g_offense_count (pop ! i)) \<and>
      g_unobserved_crimes (count_unobserved nan_int pop lam ! i)
        = wrap64 (g_total_crimes (count_unobserved nan_int pop lam ! i)
                    - g_offense_count (pop ! i)) \<and>
      (int64 (g_total_crimes (count_unobserved nan_int pop lam ! i) - g_offense_count (pop ! i))
         \<longrightarrow> g_unobserved_crimes (count_unobserved nan_int pop lam ! i)
               = g_total_crimes (count_unobserved nan_int pop lam ! i)
                   - g_offense_count (pop ! i))"
  proof (intro allI impI)
    fix i assume i: "i < length pop"
    let ?p = "pop ! i"
    let ?e = "count_unobserved nan_int pop lam ! i"
    from i have e: "?e = count_unobserved_row nan_int lam ?p" by (rule count_unobserved_nth)
    have k: "g_key ?e = g_key ?p" by (simp add: e count_unobserved_row_simps)
    have pos: "g_total_crimes ?e = np_round t"
      if "g_arrest ?p = Fin a \<and> 0 < a \<and> lam_factor lam ?p = Fin l \<and>
          \<bar>g_offense_count ?p\<bar> < 2 ^ 53 \<and>
          f64 (of_int (g_offense_count ?p) / a) = Some q \<and> f64 (q * l) = Some t \<and>
          int64 (np_round t)" for a l q t
    proof -
      from that have "where_total lam ?p = Some t" by (intro where_total_pos [of ?p a lam l q t]) simp_all
      with that show ?thesis by (simp add: e count_unobserved_row_simps astype_int_def)
    qed
    have nonpos: "g_total_crimes ?e = g_offense_count ?p"
      if "\<not> fl_pos (g_arrest ?p) \<and> \<bar>g_offense_count ?p\<bar> < 2 ^ 53"
    proof -
      from that have "where_total lam ?p = Some (of_int (g_offense_count ?p))"
        by (simp add: where_total_nonpos f64r_of_int)
      moreover from that have "int64 (g_offense_count ?p)" by (simp add: int64_small)
      ultimately show ?thesis
        by (simp add: e count_unobserved_row_simps astype_int_def np_round_of_int)
    qed
    have u: "g_unobserved_crimes ?e = wrap64 (g_total_crimes ?e - g_offense_count ?p)"
      by (simp add: e count_unobserved_row_simps)
    have u': "g_unobserved_crimes ?e = g_total_crimes ?e - g_offense_count ?p"
      if "int64 (g_total_crimes ?e - g_offense_count ?p)"
      using that u by (simp add: wrap64_id)
    from k pos nonpos u u'
    show "g_key ?e = g_key ?p \<and>
      (\<forall>a l q t.
         g_arrest ?p = Fin a \<and> 0 < a \<and> lam_factor lam ?p = Fin l \<and>
         \<bar>g_offense_count ?p\<bar> < 2 ^ 53 \<and>
         f64 (of_int (g_offense_count ?p) / a) = Some q \<and> f64 (q * l) = Some t \<and>
         int64 (np_round t) \<longrightarrow>
           g_total_crimes ?e = np_round t) \<and>
      (\<not> fl_pos (g_arrest ?p) \<and> \<bar>g_offense_count ?p\<bar> < 2 ^ 53 \<longrightarrow>
         g_total_crimes ?e = g_offense_count ?p) \<and>
      g_unobserved_crimes ?e = wrap64 (g_total_crimes ?e - g_offense_count ?p) \<and>
      (int64 (g_total_crimes ?e - g_offense_count ?p)
         \<longrightarrow> g_unobserved_crimes ?e = g_total_crimes ?e - g_offense_count ?p)"
      by blast
  qed
qed

text \<open>
  The theorem at the table \<open>ex_pop_f64\<close>. Its first group has the count 3, the arrest
  rate 0.7 and the rate factor 0.35: the float64 product is 1.4999999999999998 and the
  total is 1, where the exact product 3/2 would round to 2. Its second group has the
  arrest rate zero and keeps its count, its third has the total 20 for the count 10.
\<close>

theorem count_unobserved_total_crimes_witness:
  "map g_total_crimes (count_unobserved 0 ex_pop_f64 None) = [1, 7, 20]
     \<and> map g_unobserved_crimes (count_unobserved 0 ex_pop_f64 None) = [- 2, 0, 10]"
proof -
  let ?es = "count_unobserved 0 ex_pop_f64 None"
  have len: "length ex_pop_f64 = 3" by (simp add: ex_pop_f64_def)
  have lt: "0 < length ex_pop_f64" "1 < length ex_pop_f64" "2 < length ex_pop_f64"
    by (simp_all add: len)
  note th = count_unobserved_total_crimes [of 0 ex_pop_f64 None]
  from th len have l3: "length ?es = 3" by simp
  from th have all: "\<And>i. i < length ex_pop_f64 \<Longrightarrow>
      (\<forall>a l q t.
         g_arrest (ex_pop_f64 ! i) = Fin a \<and> 0 < a \<and> lam_factor None (ex_pop_f64 ! i) = Fin l \<and>
         \<bar>g_offense_count (ex_pop_f64 ! i)\<bar> < 2 ^ 53 \<and>
         f64 (of_int (g_offense_count (ex_pop_f64 ! i)) / a) = Some q \<and> f64 (q * l) = Some t \<and>
         int64 (np_round t) \<longrightarrow>
           g_total_crimes (?es ! i) = np_round t) \<and>
      (\<not> fl_pos (g_arrest (ex_pop_f64 ! i)) \<and> \<bar>g_offense_count (ex_pop_f64 ! i)\<bar> < 2 ^ 53 \<longrightarrow>
         g_total_crimes (?es ! i) = g_offense_count (ex_pop_f64 ! i)) \<and>
      (int64 (g_total_crimes (?es ! i) - g_offense_count (ex_pop_f64 ! i))
         \<longrightarrow> g_unobserved_crimes (?es ! i)
               = g_total_crimes (?es ! i) - g_offense_count (ex_pop_f64 ! i))"
    by blast
  have h0: "g_arrest (ex_pop_f64 ! 0) = Fin (3152519739159347 / 4503599627370496)
      \<and> 0 < (3152519739159347 / 4503599627370496 :: rat)
      \<and> lam_factor None (ex_pop_f64 ! 0) = Fin (3152519739159347 / 9007199254740992)
      \<and> \<bar>g_offense_count (ex_pop_f64 ! 0)\<bar> < 2 ^ 53"
    by (simp add: ex_pop_f64_def lam_factor_def)
  have q0: "f64 (of_int (g_offense_count (ex_pop_f64 ! 0)) / (3152519739159347 / 4503599627370496))
      = Some (4825285315039817 / 1125899906842624)"
    by code_simp
  have t0: "f64 (4825285315039817 / 1125899906842624 * (3152519739159347 / 9007199254740992))
      = Some (6755399441055743 / 4503599627370496)"
    by code_simp
  have r0: "np_round (6755399441055743 / 4503599627370496) = 1" by code_simp
  have i0: "int64 (np_round (6755399441055743 / 4503599627370496))"
    by (simp add: r0 int64_def)
  from all [OF lt(1)] h0 q0 t0 i0
  have "g_total_crimes (?es ! 0) = np_round (6755399441055743 / 4503599627370496)"
    by blast
  then have T0: "g_total_crimes (?es ! 0) = 1" by (simp only: r0)
  have "int64 (1 - g_offense_count (ex_pop_f64 ! 0))" by (simp add: ex_pop_f64_def int64_def)
  with all [OF lt(1)] T0 have U0: "g_unobserved_crimes (?es ! 0) = - 2"
    by (simp add: ex_pop_f64_def)
  have h1: "\<not> fl_pos (g_arrest (ex_pop_f64 ! 1)) \<and> \<bar>g_offense_count (ex_pop_f64 ! 1)\<bar> < 2 ^ 53"
    by (simp add: ex_pop_f64_def)
  with all [OF lt(2)] have T1: "g_total_crimes (?es ! 1) = 7" by (simp add: ex_pop_f64_def)
  have "int64 (7 - g_offense_count (ex_pop_f64 ! 1))" by (simp add: ex_pop_f64_def int64_def)
  with all [OF lt(2)] T1 have U1: "g_unobserved_crimes (?es ! 1) = 0"
    by (simp add: ex_pop_f64_def)
  have h2: "g_arrest (ex_pop_f64 ! 2) = Fin (1 / 2) \<and> 0 < (1 / 2 :: rat)
      \<and> lam_factor None (ex_pop_f64 ! 2) = Fin 1
      \<and> \<bar>g_offense_count (ex_pop_f64 ! 2)\<bar> < 2 ^ 53"
    by (simp add: ex_pop_f64_def lam_factor_def)
  have q2: "f64 (of_int (g_offense_count (ex_pop_f64 ! 2)) / (1 / 2)) = Some 20"
    by (simp add: ex_pop_f64_def f64_numeral)
  have t2: "f64 (20 * 1) = Some 20" by (simp add: f64_numeral)
  have i2: "int64 (np_round 20)" using np_round_of_int [of 20] by (simp add: int64_def)
  from all [OF lt(3)] h2 q2 t2 i2 have "g_total_crimes (?es ! 2) = np_round 20"
    by blast
  then have T2: "g_total_crimes (?es ! 2) = 20" using np_round_of_int [of 20] by simp
  have "int64 (20 - g_offense_count (ex_pop_f64 ! 2))" by (simp add: ex_pop_f64_def int64_def)
  with all [OF lt(3)] T2 have U2: "g_unobserved_crimes (?es ! 2) = 10"
    by (simp add: ex_pop_f64_def)
  have split3: "map f xs = [f (xs ! 0), f (xs ! 1), f (xs ! 2)]" if "length xs = 3"
    for f :: "nat est_row \<Rightarrow> int" and xs
  proof -
    from that obtain a b c where "xs = [a, b, c]"
      by (cases xs; cases "tl xs"; cases "tl (tl xs)") auto
    then show ?thesis by simp
  qed
  from split3 [OF l3] T0 T1 T2 U0 U1 U2 show ?thesis by simp
qed

text \<open>
  C1, as the specification states it, fails: with an observed count of 10, an arrest rate
  of 1/2 and the override 2 the code computes 10 / (1/2) * 2 = 40, where the specification
  asks for 10 / 2 = 5.
\<close>

theorem count_unobserved_lam_counterexample:
  "count_unobserved 0
     [\<lparr>g_key = (0::nat), g_offense_count = 10, g_pop_size = 2, g_arrest = Fin (1 / 2),
       g_lambda = Fin (1 / 2)\<rparr>]
     (Some (Fin 2))
   = [\<lparr>g_key = 0, g_offense_count = 10, g_pop_size = 2, g_arrest = Fin (1 / 2),
       g_lambda = Fin (1 / 2), g_total_crimes = 40, g_unobserved_crimes = 30,
       g_unobserved_per_person = Fin 15\<rparr>]
   \<and> spec_total_crimes (Some 2) 10 (1 / 2) = 5"
  by code_simp




section \<open>Properties of the sampler\<close>

lemma floor_rat_numeral:
  "\<lfloor>numeral a / numeral b :: rat\<rfloor> = numeral a div numeral b"
  using floor_divide_of_int_eq [of "numeral a" "numeral b", where ?'a = rat] by simp

lemma floor_rat_neg_numeral:
  "\<lfloor>- (numeral a / numeral b) :: rat\<rfloor> = - numeral a div numeral b"
  using floor_divide_of_int_eq [of "- numeral a" "numeral b", where ?'a = rat] by simp

lemmas rat_floor_simps = floor_rat_numeral floor_rat_neg_numeral ceiling_def

lemmas ex_simps = ex_rng_def ex_row_def ex_grp_def ex_conflict_def weigh_def row.extend_def

lemmas sample_simps = sample_group_def nunique_def present_def mean_def pd_sample_def choice_def
  random_sample_def uniform_def cumsum_def searchsorted_right_def counter_def fl_sum_def
  py_int_def Let_def


lemma pd_sample_error: "pd_sample xs n ws g = Inl e \<Longrightarrow> e = InvalidWeights"
  by (auto simp: pd_sample_def Let_def split: if_splits prod.splits)

lemma sample_group_conflict:
  "sample_group d grp g = Inl ConflictingUnobserved \<longleftrightarrow> 1 < nunique (map unobserved_crimes grp)"
  by (auto simp: sample_group_def Let_def split: fl.splits if_splits sum.splits prod.splits
      dest: pd_sample_error)

lemma apply_sample_Inl:
  "apply_sample d gs g = Inl e \<Longrightarrow> \<exists>k grp g1. (k, grp) \<in> set gs \<and> sample_group d grp g1 = Inl e"
proof (induction gs arbitrary: g)
  case Nil
  then show ?case by simp
next
  case (Cons a gs)
  obtain k grp where a: "a = (k, grp)" by (cases a)
  show ?case
  proof (cases "sample_group d grp g")
    case (Inl e')
    with Cons.prems a have "e' = e" by simp
    with Inl a show ?thesis by auto
  next
    case (Inr p)
    obtain res g' where p: "p = (res, g')" by (cases p)
    with Cons.prems a Inr have "apply_sample d gs g' = Inl e"
      by (auto split: sum.splits)
    from Cons.IH [OF this] a show ?thesis by auto
  qed
qed

lemma apply_sample_conflict:
  "(k, grp) \<in> set gs \<Longrightarrow> 1 < nunique (map unobserved_crimes grp) \<Longrightarrow>
     \<exists>e. apply_sample d gs g = Inl e"
proof (induction gs arbitrary: g)
  case Nil
  then show ?case by simp
next
  case (Cons a gs)
  obtain k' grp' where a: "a = (k', grp')" by (cases a)
  show ?case
  proof (cases "sample_group d grp' g")
    case (Inl e')
    with a show ?thesis by simp
  next
    case (Inr p)
    obtain res g' where p: "p = (res, g')" by (cases p)
    have "(k, grp) \<noteq> a"
    proof
      assume "(k, grp) = a"
      with a have "grp' = grp" by simp
      with Cons.prems(2) have "sample_group d grp' g = Inl ConflictingUnobserved"
        by (simp add: sample_group_conflict)
      with Inr show False by simp
    qed
    with Cons.prems have "(k, grp) \<in> set gs" by auto
    from Cons.IH [OF this Cons.prems(2)] obtain e where "apply_sample d gs g' = Inl e" by blast
    with a Inr p show ?thesis by simp
  qed
qed


lemma sum_list_const: "\<forall>x \<in> set ys. x = (u::int) \<Longrightarrow> sum_list ys = int (length ys) * u"
  by (induction ys) (auto simp: algebra_simps)

lemma mean_single:
  assumes "remdups (present xs) = [u]"
  shows "mean xs = Fin (of_int u)"
proof -
  have "set (present xs) = {u}"
    using assms by (metis list.set(1) list.simps(15) set_remdups)
  then have all: "\<forall>x \<in> set (present xs). x = u" and ne: "present xs \<noteq> []" by auto
  from all have "sum_list (present xs) = int (length (present xs)) * u" by (rule sum_list_const)
  moreover from ne have "length (present xs) \<noteq> 0" by simp
  ultimately show ?thesis using ne by (simp add: mean_def)
qed

lemma sum_counter: "sum_list (map snd (counter xs)) = length xs"
proof -
  have "sum_list (map snd (counter xs)) = sum_list (map (count_list xs) (rev (remdups (rev xs))))"
    by (simp add: counter_def comp_def)
  also have "\<dots> = sum (count_list xs) (set (rev (remdups (rev xs))))"
    by (rule sum_list_distinct_conv_sum_set) simp
  also have "\<dots> = sum (count_list xs) (set xs)" by simp
  also have "\<dots> = length xs" by (rule sum_count_set) simp_all
  finally show ?thesis .
qed

lemma choice_length: "choice g n p = (idx, g') \<Longrightarrow> length idx = n"
  by (auto simp: choice_def random_sample_def Let_def)



lemma pd_sample_length: "pd_sample xs n ws g = Inr (ys, g') \<Longrightarrow> length ys = n"
  by (auto simp: pd_sample_def Let_def split: if_splits prod.splits dest: choice_length)







text \<open>
  C3. \<^verbatim>\<open>_sample\<close> raises the conflict error exactly for a group with more than one
  distinct unobserved count, whatever the divisor and the random source. If the grouped
  frame holds such a group, \<^verbatim>\<open>_sample_unobserved\<close> ends in an error and returns no
  samples; and it raises the conflict error only if the frame holds such a group.
\<close>

theorem sample_unobserved_conflict:
  "(sample_group d grp g = Inl ConflictingUnobserved \<longleftrightarrow> 1 < nunique (map unobserved_crimes grp))
   \<and> ((\<exists>k grp. (k, grp) \<in> set (groupby groups df) \<and> 1 < nunique (map unobserved_crimes grp))
        \<longrightarrow> (\<exists>e. sample_unobserved df groups d g = Inl e))
   \<and> (sample_unobserved df groups d g = Inl ConflictingUnobserved
        \<longrightarrow> (\<exists>k grp. (k, grp) \<in> set (groupby groups df) \<and> 1 < nunique (map unobserved_crimes grp)))"
proof (intro conjI impI)
  show "sample_group d grp g = Inl ConflictingUnobserved \<longleftrightarrow> 1 < nunique (map unobserved_crimes grp)"
    by (rule sample_group_conflict)
next
  assume "\<exists>k grp. (k, grp) \<in> set (groupby groups df) \<and> 1 < nunique (map unobserved_crimes grp)"
  then obtain k grp where "(k, grp) \<in> set (groupby groups df)"
      "1 < nunique (map unobserved_crimes grp)" by blast
  then have "\<exists>e. apply_sample d (groupby groups df) g = Inl e"
    by (rule apply_sample_conflict)
  then obtain e where "apply_sample d (groupby groups df) g = Inl e" ..
  then show "\<exists>e. sample_unobserved df groups d g = Inl e"
    by (simp add: sample_unobserved_def)
next
  assume "sample_unobserved df groups d g = Inl ConflictingUnobserved"
  then have "apply_sample d (groupby groups df) g = Inl ConflictingUnobserved"
    by (auto simp: sample_unobserved_def split: sum.splits prod.splits if_splits)
  then have "\<exists>k grp g1. (k, grp) \<in> set (groupby groups df) \<and>
      sample_group d grp g1 = Inl ConflictingUnobserved"
    by (rule apply_sample_Inl)
  then obtain k grp g1 where "(k, grp) \<in> set (groupby groups df)"
      "sample_group d grp g1 = Inl ConflictingUnobserved"
    by blast
  then show "\<exists>k grp. (k, grp) \<in> set (groupby groups df) \<and> 1 < nunique (map unobserved_crimes grp)"
    using sample_group_conflict by blast
qed

theorem sample_unobserved_conflict_witness:
  "(\<exists>e. sample_unobserved ex_conflict offense_category 1 ex_rng = Inl e)
   \<and> sample_group 1 ex_conflict ex_rng = Inl ConflictingUnobserved"
proof -
  have g: "groupby offense_category ex_conflict = [(''robbery'', ex_conflict)]"
    by (simp add: groupby_def ex_simps)
  have n: "1 < nunique (map unobserved_crimes ex_conflict)"
    by (simp add: ex_simps nunique_def present_def)
  from g n have "\<exists>k grp. (k, grp) \<in> set (groupby offense_category ex_conflict)
      \<and> 1 < nunique (map unobserved_crimes grp)" by simp
  with sample_unobserved_conflict [of 1 ex_conflict ex_rng offense_category ex_conflict] n
  show ?thesis by blast
qed

text \<open>
  The positions that \<^verbatim>\<open>choice\<close> draws lie inside the group: a uniform variate is below 1,
  the last entry of the normalised cumulative sums, so every drawn individual is an
  individual of the group.
\<close>

lemma uniform_range: "0 \<le> uniform g i \<and> uniform g i < 1"
proof -
  have "stream g (pos g + i) mod 2 ^ 53 < 2 ^ 53" by simp
  then have "(of_nat (stream g (pos g + i) mod 2 ^ 53) :: rat) < of_nat (2 ^ 53)"
    by (simp only: of_nat_less_iff)
  then show ?thesis by (simp add: uniform_def)
qed

lemma length_cumsum_from: "length (cumsum_from acc xs) = length xs"
  by (induction xs arbitrary: acc) auto

lemma cumsum_from_Nil: "cumsum_from acc xs = [] \<longleftrightarrow> xs = []"
  by (cases xs) auto

lemma last_cumsum_from: "xs \<noteq> [] \<Longrightarrow> last (cumsum_from acc xs) = acc + sum_list xs"
proof (induction xs arbitrary: acc)
  case Nil
  then show ?case by simp
next
  case (Cons x xs)
  show ?case
  proof (cases "xs = []")
    case True
    then show ?thesis by simp
  next
    case False
    with Cons.IH [of "acc + x"] show ?thesis
      by (simp add: cumsum_from_Nil algebra_simps)
  qed
qed

lemma takeWhile_length_less:
  assumes "x \<in> set xs" "\<not> P x"
  shows "length (takeWhile P xs) < length xs"
proof -
  from assms have "takeWhile P xs \<noteq> xs" by (auto simp: takeWhile_eq_all_conv)
  then have "dropWhile P xs \<noteq> []"
    by (metis append_Nil2 takeWhile_dropWhile_id)
  then have "0 < length (dropWhile P xs)" by simp
  moreover have "length (takeWhile P xs) + length (dropWhile P xs) = length xs"
    by (metis length_append takeWhile_dropWhile_id)
  ultimately show ?thesis by linarith
qed

lemma searchsorted_in_range:
  assumes "p \<noteq> []" "0 < sum_list p" "u < 1"
  shows "searchsorted_right (map (\<lambda>c. c / last (cumsum p)) (cumsum p)) u < length p"
proof -
  from assms(1) have last: "last (cumsum p) = sum_list p"
    by (simp add: cumsum_def last_cumsum_from)
  from assms(1) have ne: "cumsum p \<noteq> []"
    by (cases p) (auto simp: cumsum_def)
  then have "last (cumsum p) \<in> set (cumsum p)" by (rule last_in_set)
  then have mem: "last (cumsum p) / last (cumsum p) \<in> set (map (\<lambda>c. c / last (cumsum p)) (cumsum p))"
    by (simp only: set_map) (rule imageI)
  from assms(2,3) last have "\<not> last (cumsum p) / last (cumsum p) \<le> u" by simp
  from takeWhile_length_less [of _ _ "\<lambda>c. c \<le> u", OF mem this]
  show ?thesis by (simp add: searchsorted_right_def cumsum_def length_cumsum_from)
qed

lemma choice_in_range:
  assumes "choice g n p = (idx, g')" "p \<noteq> []" "0 < sum_list p"
  shows "\<forall>i \<in> set idx. i < length p"
  using assms searchsorted_in_range [OF assms(2,3)] uniform_range
  by (auto simp: choice_def random_sample_def Let_def)

lemma sum_list_divide: "sum_list (map (\<lambda>w. w / (c::rat)) ws) = sum_list ws / c"
  by (induction ws) (auto simp: add_divide_distrib)

lemma pd_sample_subset:
  assumes ok: "pd_sample xs n ws g = Inr (ys, g')" and len: "length ws = length xs"
  shows "set ys \<subseteq> set xs"
proof -
  define vs where "vs = map (\<lambda>x. case x of NaN \<Rightarrow> 0 | Fin a \<Rightarrow> a) ws"
  from ok have nn: "\<forall>w \<in> set vs. 0 \<le> w" and nz: "sum_list vs \<noteq> 0"
    by (auto simp: pd_sample_def Let_def vs_def not_less split: if_splits)
  from nn have "0 \<le> sum_list vs" by (simp add: sum_list_nonneg)
  with nz have pos: "0 < sum_list vs" by simp
  then have ne: "vs \<noteq> []" by auto
  from ok obtain idx where c: "choice g n (map (\<lambda>w. w / sum_list vs) vs) = (idx, g')"
    and ys: "ys = map (\<lambda>i. xs ! i) idx"
    by (auto simp: pd_sample_def Let_def vs_def split: if_splits prod.splits)
  from pos have "0 < sum_list (map (\<lambda>w. w / sum_list vs) vs)"
    by (simp add: sum_list_divide)
  with choice_in_range [OF c] ne have "\<forall>i \<in> set idx. i < length vs" by simp
  with len have "\<forall>i \<in> set idx. i < length xs" by (simp add: vs_def)
  with ys show ?thesis by auto
qed

section \<open>Properties of a partition with its unobserved offenses\<close>

lemma groupby_mem:
  "(k, grp) \<in> set (groupby key df) \<Longrightarrow> grp = filter (\<lambda>r. key r = k) df \<and> k \<in> key ` set df"
  by (auto simp: groupby_def)

lemma groupby_distinct: "distinct (map fst (groupby key df))"
  by (simp add: groupby_def comp_def)

lemma explode_Cons:
  "explode ((k, res) # results)
     = (case res of None \<Rightarrow> [] | Some items \<Rightarrow> map (\<lambda>(u, c). (k, u, c)) items) @ explode results"
  by (simp add: explode_def cong: option.case_cong)

lemma apply_sample_Cons:
  assumes "apply_sample d ((k, grp) # gs) g = Inr (results, g')"
  shows "\<exists>res g1 results'. sample_group d grp g = Inr (res, g1)
     \<and> apply_sample d gs g1 = Inr (results', g') \<and> results = (k, res) # results'"
  using assms by (auto split: sum.splits prod.splits)

lemma apply_sample_mem:
  "apply_sample d gs g = Inr (results, g') \<Longrightarrow> (k, u, c) \<in> set (explode results) \<Longrightarrow>
     \<exists>grp g1 g2 items. (k, grp) \<in> set gs \<and> sample_group d grp g1 = Inr (Some items, g2)
        \<and> (u, c) \<in> set items"
proof (induction gs arbitrary: g results)
  case Nil
  then show ?case by (simp add: explode_def)
next
  case (Cons a gs)
  obtain k' grp' where a: "a = (k', grp')" by (cases a)
  from Cons.prems(1) a apply_sample_Cons [of d k' grp' gs g results g'] obtain res g1 results' where
    sg: "sample_group d grp' g = Inr (res, g1)" and
    rec: "apply_sample d gs g1 = Inr (results', g')" and
    R: "results = (k', res) # results'"
    by auto
  have S: "explode results
      = (case res of None \<Rightarrow> [] | Some items \<Rightarrow> map (\<lambda>(u, c). (k', u, c)) items) @ explode results'"
    by (simp add: R explode_Cons)
  from Cons.prems(2) S consider
    (here) "(k, u, c) \<in> set (case res of None \<Rightarrow> [] | Some items \<Rightarrow> map (\<lambda>(u, c). (k', u, c)) items)"
    | (later) "(k, u, c) \<in> set (explode results')"
    by auto
  then show ?case
  proof cases
    case here
    then obtain items where "res = Some items" "k = k'" "(u, c) \<in> set items"
      by (auto split: option.splits)
    with sg a show ?thesis by auto
  next
    case later
    from Cons.IH [OF rec later] show ?thesis by auto
  qed
qed

lemma present_mem: "u \<in> set (present xs) \<longleftrightarrow> Some u \<in> set xs"
  by (induction xs) (auto simp: present_def split: option.splits)

lemma nunique_member:
  assumes "\<not> 1 < nunique xs" and "Some u \<in> set xs"
  shows "remdups (present xs) = [u]"
proof -
  from assms(2) have u: "u \<in> set (remdups (present xs))" by (simp add: present_mem)
  from assms(1) have "length (remdups (present xs)) \<le> 1" by (simp add: nunique_def)
  with u show ?thesis
    by (cases "remdups (present xs)") (auto simp del: set_remdups)
qed

lemma py_int_nonpos: "x \<le> 0 \<Longrightarrow> py_int x \<le> 0"
  by (auto simp: py_int_def ceiling_le_iff)

lemma sample_group_Some:
  assumes "sample_group d grp g = Inr (Some items, g')"
  shows "\<not> 1 < nunique (map unobserved_crimes grp) \<and> d \<noteq> 0 \<and>
     (\<exists>m ys. mean (map unobserved_crimes grp) = Fin m \<and> 1 \<le> py_int (m / d)
        \<and> items = counter ys \<and> length ys = nat (py_int (m / d)))"
  using assms
  by (auto simp: sample_group_def Let_def split: if_splits fl.splits sum.splits
      dest: pd_sample_length)

lemma counter_fst: "map fst (counter ys) = rev (remdups (rev ys))"
  by (simp add: counter_def comp_def)

lemma sample_group_uids:
  assumes "sample_group d grp g = Inr (Some items, g')"
  shows "fst ` set items \<subseteq> uid ` set grp \<and> distinct (map fst items)"
proof -
  from assms obtain n ys where
    pd: "pd_sample (map uid grp) n (map crime_weight grp) g = Inr (ys, g')" and
    items: "items = counter ys"
    by (auto simp: sample_group_def Let_def split: if_splits fl.splits sum.splits)
  from pd have "set ys \<subseteq> set (map uid grp)" by (rule pd_sample_subset) simp
  moreover have "fst ` set items = set ys"
    using counter_fst [of ys] by (metis items list.set_map set_remdups set_rev)
  moreover have "distinct (map fst items)" by (simp add: items counter_fst)
  ultimately show ?thesis by simp
qed

lemma sample_group_nonpos:
  assumes d: "0 < d" and nu: "\<not> 1 < nunique (map unobserved_crimes grp)"
      and u: "Some u \<in> set (map unobserved_crimes grp)" "u \<le> 0"
  shows "sample_group d grp g = Inr (None, g)"
proof -
  from nu u(1) have "remdups (present (map unobserved_crimes grp)) = [u]" by (rule nunique_member)
  then have m: "mean (map unobserved_crimes grp) = Fin (of_int u)" by (rule mean_single)
  from d u(2) have "of_int u / d \<le> 0" by (simp add: divide_nonpos_pos)
  then have "py_int (of_int u / d) \<le> 0" by (rule py_int_nonpos)
  with nu m d show ?thesis by (simp add: sample_group_def Let_def)
qed

lemma with_total_simps:
  "offense_unobserved (with_total r c) = c"
  "offense_total (with_total r c) = offense_count r + c"
  "offense_count (with_total r c) = offense_count r"
  "unobserved_crimes (with_total r c) = unobserved_crimes r"
  "uid (with_total r c) = uid r"
  "crime_weight (with_total r c) = crime_weight r"
  "row.truncate (with_total r c) = row.truncate r"
  by (simp_all add: with_total_def srow.extend_def row.truncate_def)

lemma merge_samples_mem:
  assumes "r \<in> set (merge_samples K df S)"
  shows "\<exists>r0 \<in> set df. r = with_total r0 0 \<and> (\<forall>c. (K (row.truncate r0), uid r0, c) \<notin> set S)
       \<or> (\<exists>c. (K (row.truncate r0), uid r0, c) \<in> set S \<and> r = with_total r0 (int c))"
proof -
  from assms obtain r0 where r0: "r0 \<in> set df" and
    r: "r \<in> set (case filter (\<lambda>(k, u, c). k = K (row.truncate r0) \<and> u = uid r0) S of
               [] \<Rightarrow> [with_total r0 0]
             | ms \<Rightarrow> map (\<lambda>(k, u, c). with_total r0 (int c)) ms)"
    by (auto simp: merge_samples_def)
  show ?thesis
  proof (cases "filter (\<lambda>(k, u, c). k = K (row.truncate r0) \<and> u = uid r0) S")
    case Nil
    then have "\<forall>c. (K (row.truncate r0), uid r0, c) \<notin> set S"
      by (auto simp: filter_empty_conv)
    with Nil r r0 show ?thesis by auto
  next
    case (Cons m ms)
    with r have "r \<in> (\<lambda>(k, u, c). with_total r0 (int c)) ` set (filter (\<lambda>(k, u, c). k = K (row.truncate r0) \<and> u = uid r0) S)"
      by simp
    then obtain k u c where "(k, u, c) \<in> set S" "k = K (row.truncate r0)" "u = uid r0"
        "r = with_total r0 (int c)" by auto
    with r0 show ?thesis by blast
  qed
qed

lemma add_unobserved_Inr:
  assumes "add_unobserved nan_int df K G crimes lam omega d g = Inr (out, g')"
  shows "\<exists>offenses results.
       offenses = count_unobserved nan_int (offenses_table K G crimes df) lam
     \<and> (\<forall>e \<in> set offenses. \<not> isna (g_unobserved_per_person e))
     \<and> apply_sample d (groupby (\<lambda>r. K (row.truncate r)) (merge_offenses K df offenses omega)) g
         = Inr (results, g')
     \<and> \<not> list_all (\<lambda>(k, res). res = None) results
     \<and> out = merge_samples K (merge_offenses K df offenses omega) (explode results)"
  using assms
  by (auto simp: add_unobserved_def sample_unobserved_def Let_def
      split: sum.splits if_splits prod.splits)


lemmas frame_simps = add_unobserved_def offenses_table_def groupby_def count_unobserved_def
  count_unobserved_row_def where_total_def lam_factor_def per_person_def np_round_def
  astype_int_def int64_def wrap64_def f64r_numeral f64_numeral f64r_zero f64_zero
  pop_row.extend_def merge_offenses_def merge_samples_def with_total_def srow.extend_def
  row.truncate_def sample_unobserved_def explode_def


lemma filter_distinct_key:
  "distinct (map f xs) \<Longrightarrow>
     filter (\<lambda>x. f x = k) xs = [] \<or> (\<exists>x. filter (\<lambda>x. f x = k) xs = [x])"
proof (induction xs)
  case Nil
  then show ?case by simp
next
  case (Cons x xs)
  show ?case
  proof (cases "f x = k")
    case True
    with Cons.prems have "k \<notin> f ` set xs" by simp
    then have "\<forall>y \<in> set xs. f y \<noteq> k" by blast
    then have "filter (\<lambda>x. f x = k) xs = []" by (simp add: filter_empty_conv)
    with True show ?thesis by simp
  next
    case False
    with Cons show ?thesis by simp
  qed
qed

lemma concat_map_single:
  "(\<And>x. x \<in> set xs \<Longrightarrow> f x = [h x]) \<Longrightarrow> concat (map f xs) = map h xs"
  by (induction xs) auto

lemma offenses_table_keys:
  assumes "distinct (map r_key crimes)"
  shows "map g_key (offenses_table K G crimes df) = map fst (groupby K df)"
proof -
  define row_of where "row_of = (\<lambda>(k, rows :: row list).
    (let cnt = sum_list (map offense_count rows);
         n = length (remdups (map uid (filter (\<lambda>r. G (K r) = G k) df)))
     in case filter (\<lambda>c. r_key c = k) crimes of
          [] \<Rightarrow> \<lparr>g_key = k, g_offense_count = cnt, g_pop_size = n, g_arrest = NaN, g_lambda = NaN\<rparr>
        | c # cs \<Rightarrow> \<lparr>g_key = k, g_offense_count = cnt, g_pop_size = n,
                      g_arrest = r_arrest c, g_lambda = r_lambda c\<rparr>))"
  have single: "(\<lambda>(k, rows).
          (let cnt = sum_list (map offense_count rows);
               n = length (remdups (map uid (filter (\<lambda>r. G (K r) = G k) df)))
           in case filter (\<lambda>c. r_key c = k) crimes of
                [] \<Rightarrow> [\<lparr>g_key = k, g_offense_count = cnt, g_pop_size = n,
                        g_arrest = NaN, g_lambda = NaN\<rparr>]
              | cs \<Rightarrow> map (\<lambda>c. \<lparr>g_key = k, g_offense_count = cnt, g_pop_size = n,
                                  g_arrest = r_arrest c, g_lambda = r_lambda c\<rparr>) cs)) x = [row_of x]"
    for x
  proof -
    obtain k rows where x: "x = (k, rows)" by (cases x)
    from filter_distinct_key [OF assms, of k] show ?thesis
      by (auto simp: x row_of_def Let_def)
  qed
  have "offenses_table K G crimes df = map row_of (groupby K df)"
    unfolding offenses_table_def by (rule concat_map_single) (rule single)
  moreover have "g_key (row_of x) = fst x" for x
    by (cases x) (auto simp: row_of_def Let_def split: list.splits)
  ultimately show ?thesis by simp
qed

lemma count_unobserved_keys:
  "map g_key (count_unobserved nan_int pop lam) = map g_key pop"
  by (simp add: count_unobserved_def count_unobserved_row_simps comp_def)

lemma groupby_keys: "set (map fst (groupby K df)) = K ` set df"
  by (simp add: groupby_def comp_def)

lemma merge_offenses_map:
  assumes dist: "distinct (map g_key es)" and cover: "K ` set df \<subseteq> set (map g_key es)"
  shows "\<exists>W U. merge_offenses K df es omega = map (\<lambda>r. weigh omega r (W (K r)) (Some (U (K r)))) df"
proof -
  define e_of where "e_of k = hd (filter (\<lambda>e. g_key e = k) es)" for k
  have "(case filter (\<lambda>e. g_key e = K r) es of
               [] \<Rightarrow> [weigh omega r NaN None]
             | es \<Rightarrow> map (\<lambda>e. weigh omega r (g_unobserved_per_person e)
                                  (Some (g_unobserved_crimes e))) es)
        = [weigh omega r (g_unobserved_per_person (e_of (K r))) (Some (g_unobserved_crimes (e_of (K r))))]"
    if r: "r \<in> set df" for r
  proof -
    from r cover obtain e where "e \<in> set es" "g_key e = K r" by auto
    then have "filter (\<lambda>e. g_key e = K r) es \<noteq> []" by (auto simp: filter_empty_conv)
    with filter_distinct_key [OF dist, of "K r"] obtain e' where
      "filter (\<lambda>e. g_key e = K r) es = [e']" by auto
    then show ?thesis by (simp add: e_of_def)
  qed
  then have "merge_offenses K df es omega
      = map (\<lambda>r. weigh omega r (g_unobserved_per_person (e_of (K r))) (Some (g_unobserved_crimes (e_of (K r))))) df"
    unfolding merge_offenses_def by (rule concat_map_single)
  then show ?thesis
    by (intro exI [of _ "\<lambda>k. g_unobserved_per_person (e_of k)"]
        exI [of _ "\<lambda>k. g_unobserved_crimes (e_of k)"])
qed

lemma weigh_simps:
  "row.truncate (weigh omega r a b) = r"
  "uid (weigh omega r a b) = uid r"
  "offense_count (weigh omega r a b) = offense_count r"
  "unobserved_crimes (weigh omega r a b) = b"
  by (simp_all add: weigh_def row.extend_def row.truncate_def)

text \<open>
  The samples hold at most one row per group and individual, so the left join with them
  keeps the rows of the frame, one for one and in order.
\<close>

lemma apply_sample_distinct:
  "apply_sample d gs g = Inr (results, g') \<Longrightarrow> distinct (map fst gs) \<Longrightarrow>
     distinct (map (\<lambda>(k, u, c). (k, u)) (explode results))"
proof (induction gs arbitrary: g results)
  case Nil
  then show ?case by (simp add: explode_def)
next
  case (Cons a gs)
  obtain k0 grp0 where a: "a = (k0, grp0)" by (cases a)
  from Cons.prems(1) a apply_sample_Cons [of d k0 grp0 gs g results g'] obtain res g1 results' where
    sg: "sample_group d grp0 g = Inr (res, g1)" and
    rec: "apply_sample d gs g1 = Inr (results', g')" and
    R: "results = (k0, res) # results'"
    by auto
  define here where "here = (case res of None \<Rightarrow> [] | Some items \<Rightarrow> map (\<lambda>(u, c). (k0, u, c)) items)"
  have S: "explode results = here @ explode results'"
    by (simp add: R explode_Cons here_def)
  from Cons.prems(2) a have dgs: "distinct (map fst gs)" and notin: "k0 \<notin> fst ` set gs" by auto
  have d1: "distinct (map (\<lambda>(k, u, c). (k, u)) here)"
  proof (cases res)
    case None
    then show ?thesis by (simp add: here_def)
  next
    case (Some items)
    with sg have "distinct (map fst items)" using sample_group_uids by blast
    moreover have "map (\<lambda>(k, u, c). (k, u)) here = map (\<lambda>u. (k0, u)) (map fst items)"
      by (simp add: here_def Some comp_def case_prod_unfold)
    ultimately show ?thesis by (simp add: distinct_map inj_on_def del: map_map)
  qed
  have d2: "distinct (map (\<lambda>(k, u, c). (k, u)) (explode results'))"
    by (rule Cons.IH [OF rec dgs])
  have k1: "\<forall>x \<in> set here. fst x = k0"
    by (auto simp: here_def split: option.splits)
  have k2: "\<forall>x \<in> set (explode results'). fst x \<noteq> k0"
  proof
    fix x assume x: "x \<in> set (explode results')"
    obtain k u c where xe: "x = (k, u, c)" by (cases x)
    from apply_sample_mem [OF rec x [unfolded xe]] have "k \<in> fst ` set gs" by force
    with notin xe show "fst x \<noteq> k0" by auto
  qed
  have "set (map (\<lambda>(k, u, c). (k, u)) here) \<inter> set (map (\<lambda>(k, u, c). (k, u)) (explode results')) = {}"
    using k1 k2 by (auto simp: case_prod_unfold)
  with d1 d2 show ?case by (simp add: S)
qed

lemma merge_samples_map:
  assumes "distinct (map (\<lambda>(k, u, c). (k, u)) S)"
  shows "\<exists>A. merge_samples K df S = map (\<lambda>r. with_total r (A r)) df"
proof -
  define A where "A = (\<lambda>r :: srow. case filter (\<lambda>(k, u, c). k = K (row.truncate r) \<and> u = uid r) S of
      [] \<Rightarrow> 0 | m # ms \<Rightarrow> int (snd (snd m)))"
  have "(case filter (\<lambda>(k, u, c). k = K (row.truncate r) \<and> u = uid r) S of
           [] \<Rightarrow> [with_total r 0]
         | ms \<Rightarrow> map (\<lambda>(k, u, c). with_total r (int c)) ms) = [with_total r (A r)]" for r
  proof -
    have eq: "(\<lambda>(k, u, c). k = K (row.truncate r) \<and> u = uid r)
        = (\<lambda>x. (\<lambda>(k, u, c). (k, u)) x = (K (row.truncate r), uid r))"
      by (auto simp: fun_eq_iff)
    from filter_distinct_key [OF assms, of "(K (row.truncate r), uid r)"]
    show ?thesis unfolding A_def eq by (auto simp: case_prod_unfold)
  qed
  then have "merge_samples K df S = map (\<lambda>r. with_total r (A r)) df"
    unfolding merge_samples_def by (intro concat_map_single)
  then show ?thesis by (intro exI [of _ A])
qed

lemma distinct_uid_in_group:
  "distinct (map (\<lambda>r. (K r, uid r)) df) \<Longrightarrow> distinct (map uid (filter (\<lambda>r. K r = k) df))"
proof (induction df)
  case Nil
  then show ?case by simp
next
  case (Cons a df)
  then have IH: "distinct (map uid (filter (\<lambda>r. K r = k) df))" by simp
  show ?case
  proof (cases "K a = k")
    case True
    have "uid a \<notin> uid ` set (filter (\<lambda>r. K r = k) df)"
    proof
      assume "uid a \<in> uid ` set (filter (\<lambda>r. K r = k) df)"
      then obtain x where x: "x \<in> set df" "K x = k" "uid x = uid a" by auto
      from x(1) have "(\<lambda>r. (K r, uid r)) x \<in> (\<lambda>r. (K r, uid r)) ` set df" by (rule imageI)
      with True x have "(K a, uid a) \<in> (\<lambda>r. (K r, uid r)) ` set df" by simp
      with Cons.prems show False by simp
    qed
    with True IH show ?thesis by simp
  next
    case False
    with IH show ?thesis by simp
  qed
qed

lemma merge_samples_group_sum:
  "sum_list (map offense_unobserved
       (filter (\<lambda>r. K (row.truncate r) = k) (merge_samples K df S)))
   = sum_list (map (\<lambda>r0. sum_list (map (\<lambda>(k', u, c). int c)
          (filter (\<lambda>(k', u, c). k' = K (row.truncate r0) \<and> u = uid r0) S)))
       (filter (\<lambda>r0. K (row.truncate r0) = k) df))"
proof (induction df)
  case Nil
  then show ?case by (simp add: merge_samples_def)
next
  case (Cons r0 df)
  define F where "F = (\<lambda>r. case filter (\<lambda>(k, u, c). k = K (row.truncate r) \<and> u = uid r) S of
               [] \<Rightarrow> [with_total r 0]
             | ms \<Rightarrow> map (\<lambda>(k, u, c). with_total r (int c)) ms)"
  have ms: "merge_samples K (r0 # df) S = F r0 @ merge_samples K df S"
    by (simp add: merge_samples_def F_def)
  have key: "\<forall>r \<in> set (F r0). K (row.truncate r) = K (row.truncate r0)"
    by (auto simp: F_def with_total_simps split: list.splits)
  have total: "sum_list (map offense_unobserved (F r0))
      = sum_list (map (\<lambda>(k', u, c). int c)
          (filter (\<lambda>(k', u, c). k' = K (row.truncate r0) \<and> u = uid r0) S))"
  proof (cases "filter (\<lambda>(k, u, c). k = K (row.truncate r0) \<and> u = uid r0) S")
    case Nil
    then show ?thesis by (simp add: F_def with_total_simps)
  next
    case (Cons m ms)
    then show ?thesis
      by (simp add: F_def with_total_simps comp_def case_prod_unfold)
  qed
  show ?case
  proof (cases "K (row.truncate r0) = k")
    case True
    with key have "filter (\<lambda>r. K (row.truncate r) = k) (F r0) = F r0"
      by (simp add: filter_id_conv)
    with True ms total Cons.IH show ?thesis by simp
  next
    case False
    with key have "filter (\<lambda>r. K (row.truncate r) = k) (F r0) = []"
      by (simp add: filter_empty_conv)
    with False ms Cons.IH show ?thesis by simp
  qed
qed

lemma sum_if_distinct:
  "distinct (map f rs) \<Longrightarrow> u \<in> f ` set rs \<Longrightarrow>
     sum_list (map (\<lambda>r. if u = f r then c else 0) rs) = (c::int)"
proof (induction rs)
  case Nil
  then show ?case by simp
next
  case (Cons r rs)
  show ?case
  proof (cases "u = f r")
    case True
    with Cons.prems have "u \<notin> f ` set rs" by simp
    then have "\<forall>r \<in> set rs. u \<noteq> f r" by blast
    then have "sum_list (map (\<lambda>r. if u = f r then c else 0) rs) = 0"
      by (induction rs) auto
    with True show ?thesis by simp
  next
    case False
    with Cons show ?thesis by simp
  qed
qed

text \<open>
  Each sample of a group is matched by exactly one row of the group, so the assigned
  counts of the group add up to the counts of its samples.
\<close>

lemma matched_sum_eq:
  "distinct (map f rs) \<Longrightarrow> \<forall>x \<in> set S. fst x = k \<longrightarrow> fst (snd x) \<in> f ` set rs \<Longrightarrow>
     sum_list (map (\<lambda>r. sum_list (map (\<lambda>(k', u, c). int c)
            (filter (\<lambda>(k', u, c). k' = k \<and> u = f r) S))) rs)
       = sum_list (map (\<lambda>(k', u, c). int c) (filter (\<lambda>(k', u, c). k' = k) S))"
proof (induction S)
  case Nil
  then show ?case by simp
next
  case (Cons s S)
  obtain k' u c where s: "s = (k', u, c)" by (cases s)
  have split: "sum_list (map (\<lambda>r. sum_list (map (\<lambda>(k', u, c). int c)
            (filter (\<lambda>(k', u, c). k' = k \<and> u = f r) (s # S)))) rs)
      = sum_list (map (\<lambda>r. if k' = k \<and> u = f r then int c else 0) rs)
        + sum_list (map (\<lambda>r. sum_list (map (\<lambda>(k', u, c). int c)
            (filter (\<lambda>(k', u, c). k' = k \<and> u = f r) S))) rs)"
  proof -
    have pt: "sum_list (map (\<lambda>(k', u, c). int c)
            (filter (\<lambda>(k', u, c). k' = k \<and> u = f r) (s # S)))
        = (if k' = k \<and> u = f r then int c else 0)
          + sum_list (map (\<lambda>(k', u, c). int c)
              (filter (\<lambda>(k', u, c). k' = k \<and> u = f r) S))" for r
      by (simp add: s)
    show ?thesis by (simp only: pt sum_list_addf)
  qed
  have head: "sum_list (map (\<lambda>r. if k' = k \<and> u = f r then int c else 0) rs)
      = (if k' = k then int c else 0)"
  proof (cases "k' = k")
    case True
    with Cons.prems(2) s have "u \<in> f ` set rs" by simp
    from sum_if_distinct [OF Cons.prems(1) this, of "int c"] True show ?thesis by simp
  next
    case False
    then show ?thesis by simp
  qed
  have rhs: "sum_list (map (\<lambda>(k', u, c). int c) (filter (\<lambda>(k', u, c). k' = k) (s # S)))
      = (if k' = k then int c else 0)
        + sum_list (map (\<lambda>(k', u, c). int c) (filter (\<lambda>(k', u, c). k' = k) S))"
    by (simp add: s)
  from Cons.prems have "sum_list (map (\<lambda>r. sum_list (map (\<lambda>(k', u, c). int c)
            (filter (\<lambda>(k', u, c). k' = k \<and> u = f r) S))) rs)
       = sum_list (map (\<lambda>(k', u, c). int c) (filter (\<lambda>(k', u, c). k' = k) S))"
    by (intro Cons.IH) simp_all
  with head show ?case unfolding split rhs by simp
qed

lemma apply_sample_key_sum:
  "apply_sample d gs g = Inr (results, g') \<Longrightarrow> distinct (map fst gs) \<Longrightarrow> (k, grp) \<in> set gs \<Longrightarrow>
     \<exists>res g1 g2. sample_group d grp g1 = Inr (res, g2)
       \<and> sum_list (map (\<lambda>(k', u, c). int c) (filter (\<lambda>(k', u, c). k' = k) (explode results)))
           = (case res of None \<Rightarrow> 0 | Some items \<Rightarrow> sum_list (map (\<lambda>(u, c). int c) items))"
proof (induction gs arbitrary: g results)
  case Nil
  then show ?case by simp
next
  case (Cons a gs)
  obtain k0 grp0 where a: "a = (k0, grp0)" by (cases a)
  from Cons.prems(1) a apply_sample_Cons [of d k0 grp0 gs g results g'] obtain res g1 results' where
    sg: "sample_group d grp0 g = Inr (res, g1)" and
    rec: "apply_sample d gs g1 = Inr (results', g')" and
    R: "results = (k0, res) # results'"
    by auto
  define here where "here = (case res of None \<Rightarrow> [] | Some items \<Rightarrow> map (\<lambda>(u, c). (k0, u, c)) items)"
  have S: "explode results = here @ explode results'"
    by (simp add: R explode_Cons here_def)
  have here_keys: "\<forall>x \<in> set here. fst x = k0"
    by (auto simp: here_def split: option.splits)
  show ?case
  proof (cases "k = k0")
    case True
    with Cons.prems(2) a have notin: "k \<notin> fst ` set gs" by simp
    with Cons.prems(3) a True have grp: "grp = grp0" by force
    have "filter (\<lambda>(k', u, c). k' = k) (explode results') = []"
    proof (rule ccontr)
      assume "filter (\<lambda>(k', u, c). k' = k) (explode results') \<noteq> []"
      then obtain u c where "(k, u, c) \<in> set (explode results')"
        by (auto simp: filter_empty_conv)
      from apply_sample_mem [OF rec this] notin show False by force
    qed
    moreover from here_keys True have "filter (\<lambda>(k', u, c). k' = k) here = here"
      by (auto simp: filter_id_conv)
    moreover have "sum_list (map (\<lambda>(k', u, c). int c) here)
        = (case res of None \<Rightarrow> 0 | Some items \<Rightarrow> sum_list (map (\<lambda>(u, c). int c) items))"
      by (auto simp: here_def comp_def case_prod_unfold split: option.splits)
    ultimately have "sum_list (map (\<lambda>(k', u, c). int c) (filter (\<lambda>(k', u, c). k' = k) (explode results)))
        = (case res of None \<Rightarrow> 0 | Some items \<Rightarrow> sum_list (map (\<lambda>(u, c). int c) items))"
      by (simp add: S)
    with sg grp show ?thesis by blast
  next
    case False
    with here_keys have "filter (\<lambda>(k', u, c). k' = k) here = []"
      by (auto simp: filter_empty_conv)
    then have eq: "filter (\<lambda>(k', u, c). k' = k) (explode results)
        = filter (\<lambda>(k', u, c). k' = k) (explode results')"
      by (simp add: S)
    from Cons.prems a False have "distinct (map fst gs)" "(k, grp) \<in> set gs" by auto
    then show ?thesis unfolding eq by (rule Cons.IH [OF rec])
  qed
qed

lemma py_int_le:
  assumes "1 \<le> d" and "1 \<le> py_int (of_int u / d)"
  shows "py_int (of_int u / d) \<le> u \<and> 0 < u"
proof -
  have pos: "0 \<le> of_int u / d"
  proof (rule ccontr)
    assume "\<not> 0 \<le> of_int u / d"
    then have "py_int (of_int u / d) \<le> 0" by (simp add: py_int_nonpos)
    with assms(2) show False by simp
  qed
  with assms(2) have fl: "1 \<le> \<lfloor>of_int u / d\<rfloor>" by (simp add: py_int_def)
  from assms(1) pos have u0: "0 \<le> u" by (simp add: zero_le_divide_iff)
  with assms(1) have "of_int u / d \<le> of_int u"
    by (simp add: divide_le_eq mult_le_cancel_left1)
  then have "\<lfloor>of_int u / d\<rfloor> \<le> \<lfloor>of_int u :: rat\<rfloor>" by (rule floor_mono)
  then have le: "\<lfloor>of_int u / d\<rfloor> \<le> u" by simp
  from fl le have "0 < u" by linarith
  with le pos show ?thesis by (simp add: py_int_def)
qed

lemma sample_group_tokens:
  assumes sg: "sample_group d grp g1 = Inr (res, g2)"
      and u: "Some u \<in> set (map unobserved_crimes grp)"
  shows "(case res of None \<Rightarrow> 0 | Some items \<Rightarrow> sum_list (map (\<lambda>(u, c). int c) items))
      = (if 0 < fl_sum (map crime_weight grp) \<and> 1 \<le> py_int (of_int u / d)
         then py_int (of_int u / d) else 0)"
proof -
  from sg have nu: "\<not> 1 < nunique (map unobserved_crimes grp)"
    by (auto simp: sample_group_def split: if_splits)
  from nu u have "remdups (present (map unobserved_crimes grp)) = [u]" by (rule nunique_member)
  then have m: "mean (map unobserved_crimes grp) = Fin (of_int u)" by (rule mean_single)
  show ?thesis
  proof (cases res)
    case None
    with sg nu m have "\<not> (0 < fl_sum (map crime_weight grp) \<and> 1 \<le> py_int (of_int u / d))"
      by (auto simp: sample_group_def Let_def split: if_splits sum.splits)
    with None show ?thesis by simp
  next
    case (Some items)
    with sg have sg': "sample_group d grp g1 = Inr (Some items, g2)" by simp
    from sample_group_Some [OF sg'] m obtain ys where
      n: "1 \<le> py_int (of_int u / d)" and
      items: "items = counter ys" and
      len: "length ys = nat (py_int (of_int u / d))"
      by auto
    from sg' nu m have w: "0 < fl_sum (map crime_weight grp)"
      by (auto simp: sample_group_def Let_def split: if_splits sum.splits)
    have "sum_list (map (\<lambda>(u, c). int c) items) = int (sum_list (map snd items))"
      by (induction items) auto
    also have "\<dots> = int (length ys)" by (simp add: items sum_counter)
    also from len n have "\<dots> = py_int (of_int u / d)" by simp
    finally show ?thesis using Some n w by simp
  qed
qed

lemma py_int_target_le:
  assumes "1 \<le> d"
  shows "max 0 (py_int (of_int u / d)) \<le> max 0 u"
proof (cases "1 \<le> py_int (of_int u / d)")
  case True
  with py_int_le [OF assms] show ?thesis by simp
next
  case False
  then show ?thesis by simp
qed

lemma groupby_mem_iff:
  "(k, grp) \<in> set (groupby key df) \<longleftrightarrow> k \<in> key ` set df \<and> grp = filter (\<lambda>r. key r = k) df"
  by (auto simp: groupby_def)

lemma sum_list_pointwise_add:
  "\<forall>r \<in> set xs. f r = g r + (h r :: int) \<Longrightarrow>
     sum_list (map f xs) = sum_list (map g xs) + sum_list (map h xs)"
  by (induction xs) auto

lemma merge_samples_total:
  "r \<in> set (merge_samples K df S) \<Longrightarrow> offense_total r = offense_count r + offense_unobserved r"
  by (drule merge_samples_mem) (auto simp: with_total_simps)

lemma upt10: "[0..<10] = [0, 1, 2, 3, 4, 5, 6, 7, 8, 9]"
  by code_simp

lemma summary_Inr:
  "summary res = Inr ys \<Longrightarrow>
     \<exists>out. res = Inr (out, snd ys)
       \<and> map (\<lambda>r. (uid r, offense_category r, unobserved_crimes r, offense_unobserved r, offense_total r)) out
           = fst ys"
  by (cases res) (auto simp: summary_def)

lemmas eval_simps = summary_def ex_df_def ex_rates_def ex_df_mixed_def ex_rates_mixed_def ex_key_def
  ex_rate_def ex_simps frame_simps
  sample_simps rat_floor_simps upt10

lemma ex_eval:
  "summary (add_unobserved 0 ex_df ex_key snd ex_rates None 1 1 ex_rng)
     = Inr ([(1, ''robbery'', Some 10, 8, 18), (2, ''robbery'', Some 10, 2, 2)], ex_rng\<lparr>pos := 10\<rparr>)"
  by (simp add: eval_simps)

lemma ex_mixed_eval:
  "summary (add_unobserved 0 ex_df_mixed ex_key snd ex_rates_mixed None 1 1 ex_rng)
     = Inr ([(1, ''robbery'', Some 10, 8, 18), (2, ''robbery'', Some 10, 2, 2),
             (1, ''assault'', Some (- 5), 0, 10), (2, ''assault'', Some (- 5), 0, 0)],
            ex_rng\<lparr>pos := 10\<rparr>)"
  by (simp add: eval_simps)

text \<open>
  The frame that \<^verbatim>\<open>_add_unobserved\<close> returns: the cohort rows with the columns of the
  estimator, of the weights and of the assigned counts, one for one and in order.
\<close>

lemma add_unobserved_frame:
  assumes ok: "add_unobserved nan_int df K G crimes lam omega d g = Inr (out, g')"
      and rates: "distinct (map r_key crimes)"
  shows "\<exists>W U A results.
       apply_sample d (groupby (\<lambda>r. K (row.truncate r))
           (map (\<lambda>r. weigh omega r (W (K r)) (Some (U (K r)))) df)) g = Inr (results, g')
     \<and> out = merge_samples K (map (\<lambda>r. weigh omega r (W (K r)) (Some (U (K r)))) df) (explode results)
     \<and> out = map (\<lambda>r. with_total r (A r)) (map (\<lambda>r. weigh omega r (W (K r)) (Some (U (K r)))) df)"
proof -
  from add_unobserved_Inr [OF ok] obtain offenses results where
    cu: "offenses = count_unobserved nan_int (offenses_table K G crimes df) lam" and
    ap: "apply_sample d (groupby (\<lambda>r. K (row.truncate r)) (merge_offenses K df offenses omega)) g
           = Inr (results, g')" and
    out: "out = merge_samples K (merge_offenses K df offenses omega) (explode results)"
    by blast
  have keys: "map g_key offenses = map fst (groupby K df)"
    using count_unobserved_keys [of nan_int "offenses_table K G crimes df" lam]
      offenses_table_keys [OF rates, of K G df] by (simp add: cu)
  then have "distinct (map g_key offenses)" and "K ` set df \<subseteq> set (map g_key offenses)"
    using groupby_distinct [of K df] groupby_keys [of K df] by simp_all
  from merge_offenses_map [OF this] obtain W U where
    df': "merge_offenses K df offenses omega = map (\<lambda>r. weigh omega r (W (K r)) (Some (U (K r)))) df"
    by blast
  have "distinct (map (\<lambda>(k, u, c). (k, u)) (explode results))"
    using ap groupby_distinct by (rule apply_sample_distinct)
  from merge_samples_map [OF this, of K "merge_offenses K df offenses omega"] obtain A where
    "out = map (\<lambda>r. with_total r (A r)) (merge_offenses K df offenses omega)"
    unfolding out by blast
  with ap out show ?thesis unfolding df' by blast
qed

lemma add_unobserved_rows:
  assumes "add_unobserved nan_int df K G crimes lam omega d g = Inr (out, g')"
      and "distinct (map r_key crimes)"
  shows "map row.truncate out = df"
proof -
  from add_unobserved_frame [OF assms] obtain W U A where
    "out = map (\<lambda>r. with_total r (A r)) (map (\<lambda>r. weigh omega r (W (K r)) (Some (U (K r)))) df)"
    by blast
  then show ?thesis by (simp add: comp_def with_total_simps weigh_simps)
qed

text \<open>
  In a frame that \<^verbatim>\<open>_add_unobserved\<close> returns, a row whose unobserved count is zero or
  negative has the assigned count zero and a total equal to its observed count.
\<close>

lemma add_unobserved_nonpositive:
  assumes ok: "add_unobserved nan_int df group_all groups_of crimes lam omega n_samples_div g
                 = Inr (out, g')"
      and d: "0 < n_samples_div"
      and r: "r \<in> set out" "unobserved_crimes r = Some v" "v \<le> 0"
  shows "offense_unobserved r = 0 \<and> offense_total r = offense_count r"
proof -
  from add_unobserved_Inr [OF ok] obtain offenses results where
    ap: "apply_sample n_samples_div (groupby (\<lambda>r. group_all (row.truncate r))
           (merge_offenses group_all df offenses omega)) g = Inr (results, g')" and
    out: "out = merge_samples group_all (merge_offenses group_all df offenses omega) (explode results)"
    by blast
  define df' where "df' = merge_offenses group_all df offenses omega"
  define S where "S = explode results"
  from r(1) out have "r \<in> set (merge_samples group_all df' S)" by (simp add: df'_def S_def)
  from merge_samples_mem [OF this] obtain r0 where r0: "r0 \<in> set df'" and
    cases: "r = with_total r0 0 \<and> (\<forall>c. (group_all (row.truncate r0), uid r0, c) \<notin> set S)
       \<or> (\<exists>c. (group_all (row.truncate r0), uid r0, c) \<in> set S \<and> r = with_total r0 (int c))"
    by blast
  have no: "(group_all (row.truncate r0), uid r0, c) \<notin> set S" for c
  proof
    assume mem: "(group_all (row.truncate r0), uid r0, c) \<in> set S"
    from cases r(2) have u0: "unobserved_crimes r0 = Some v"
      by (auto simp: with_total_simps)
    from apply_sample_mem [OF ap mem [unfolded S_def]] obtain grp g1 g2 items where
      grp: "(group_all (row.truncate r0), grp) \<in> set (groupby (\<lambda>r. group_all (row.truncate r)) df')" and
      sg: "sample_group n_samples_div grp g1 = Inr (Some items, g2)"
      unfolding df'_def by blast
    from groupby_mem [OF grp] r0 have "r0 \<in> set grp" by simp
    with u0 have mem: "Some v \<in> set (map unobserved_crimes grp)" by force
    from sample_group_Some [OF sg] have nu: "\<not> 1 < nunique (map unobserved_crimes grp)" by simp
    have "sample_group n_samples_div grp g1 = Inr (None, g1)"
      by (rule sample_group_nonpos [OF d nu mem r(3)])
    with sg show False by simp
  qed
  with cases have "r = with_total r0 0" by blast
  then show ?thesis by (simp add: with_total_simps)
qed

lemma ex_zero_estimate:
  "map g_unobserved_crimes
     (count_unobserved 0 (offenses_table ex_key snd ex_rates ex_df_zero) None) = [0]"
  by (simp add: eval_simps ex_df_zero_def)

text \<open>
  C9. A group whose unobserved count is zero or negative draws no tokens
  (\<open>sample_group_nonpos\<close>), and in a frame that \<^verbatim>\<open>_add_unobserved\<close> returns its rows have
  the assigned count zero (\<open>add_unobserved_nonpositive\<close>). But \<^verbatim>\<open>_add_unobserved\<close> returns
  no frame for a partition in which no group draws a token: \<^verbatim>\<open>apply\<close> then gives an empty
  frame, and the call ends in the \<^verbatim>\<open>AttributeError\<close> of \<^verbatim>\<open>.to_frame\<close>. The partition below
  has two individuals without observed offenses, so the estimate of its only group is
  zero; the group draws no token and leaves the random source untouched, and the call
  fails.
\<close>

theorem add_unobserved_no_samples:
  "sample_group 1
     [weigh 1 (ex_row 1 ''robbery'' 0) (Fin 0) (Some 0),
      weigh 1 (ex_row 2 ''robbery'' 0) (Fin 0) (Some 0)] ex_rng = Inr (None, ex_rng)
   \<and> merge_offenses ex_key ex_df_zero
       (count_unobserved 0 (offenses_table ex_key snd ex_rates ex_df_zero) None) 1
     = [weigh 1 (ex_row 1 ''robbery'' 0) (Fin 0) (Some 0),
        weigh 1 (ex_row 2 ''robbery'' 0) (Fin 0) (Some 0)]
   \<and> add_unobserved 0 ex_df_zero ex_key snd ex_rates None 1 1 ex_rng
     = Inl NoSamples"
  by (simp add: eval_simps ex_df_zero_def)

text \<open>
  C4, as the code has it. Let \<^verbatim>\<open>_add_unobserved\<close> succeed on a partition with a divisor of
  at least 1, a rate table with one row per key and a cohort with one row per group and
  individual. Then the returned frame holds the rows of the cohort, one for one and in
  order; and for every group the totals of its rows add up to the observed counts of the
  group's cohort rows plus the assigned counts. The assigned counts of a group with the
  unobserved count \<open>u\<close> add up to the number of tokens drawn for it: \<open>u\<close> divided by the
  divisor and truncated, when that is at least 1 and the weights of the group have a
  positive sum, and zero otherwise. So they add up to at most the truncated quotient, or
  to zero where that is negative, and this bound is at most \<open>u\<close>, or zero.
\<close>

theorem add_unobserved_conservation:
  assumes ok: "add_unobserved nan_int df group_all groups_of crimes lam omega n_samples_div g
                 = Inr (out, g')"
      and d: "1 \<le> n_samples_div"
      and rates: "distinct (map r_key crimes)"
      and ids: "distinct (map (\<lambda>r. (group_all r, uid r)) df)"
  shows "map row.truncate out = df
       \<and> sum_list (map offense_total (filter (\<lambda>r. group_all (row.truncate r) = k) out))
         = sum_list (map offense_count (filter (\<lambda>r. group_all r = k) df))
           + sum_list (map offense_unobserved (filter (\<lambda>r. group_all (row.truncate r) = k) out))
       \<and> (\<forall>r \<in> set (filter (\<lambda>r. group_all (row.truncate r) = k) out). \<forall>u.
            unobserved_crimes r = Some u \<longrightarrow>
            sum_list (map offense_unobserved (filter (\<lambda>r. group_all (row.truncate r) = k) out))
              = (if 0 < fl_sum (map crime_weight (filter (\<lambda>r. group_all (row.truncate r) = k) out))
                    \<and> 1 \<le> py_int (of_int u / n_samples_div)
                 then py_int (of_int u / n_samples_div) else 0)
            \<and> sum_list (map offense_unobserved (filter (\<lambda>r. group_all (row.truncate r) = k) out))
              \<le> max 0 (py_int (of_int u / n_samples_div))
            \<and> max 0 (py_int (of_int u / n_samples_div)) \<le> max 0 u)"
proof -
  define Kt where "Kt = (\<lambda>r :: srow. group_all (row.truncate r))"
  from add_unobserved_frame [OF ok rates] obtain W U A results where
    ap: "apply_sample n_samples_div (groupby Kt
           (map (\<lambda>r. weigh omega r (W (group_all r)) (Some (U (group_all r)))) df)) g
         = Inr (results, g')" and
    out: "out = merge_samples group_all
           (map (\<lambda>r. weigh omega r (W (group_all r)) (Some (U (group_all r)))) df) (explode results)" and
    outmap: "out = map (\<lambda>r. with_total r (A r))
           (map (\<lambda>r. weigh omega r (W (group_all r)) (Some (U (group_all r)))) df)"
    unfolding Kt_def by blast
  define df' where "df' = map (\<lambda>r. weigh omega r (W (group_all r)) (Some (U (group_all r)))) df"
  define S where "S = explode results"
  define rs where "rs = filter (\<lambda>r0. Kt r0 = k) df'"
  define outk where "outk = filter (\<lambda>r. group_all (row.truncate r) = k) out"
  have rows: "map row.truncate out = df"
    using ok rates by (rule add_unobserved_rows)
  have rs: "rs = map (\<lambda>r. weigh omega r (W (group_all r)) (Some (U (group_all r))))
      (filter (\<lambda>r. group_all r = k) df)"
    by (simp add: rs_def df'_def filter_map comp_def Kt_def weigh_simps)
  then have "map uid rs = map uid (filter (\<lambda>r. group_all r = k) df)"
    by (simp add: comp_def weigh_simps)
  with distinct_uid_in_group [OF ids, of k] have dist: "distinct (map uid rs)" by simp
  have outk: "outk = map (\<lambda>r. with_total r (A r)) rs"
    by (simp add: outk_def outmap rs_def df'_def filter_map comp_def Kt_def with_total_simps)
  have cnt: "map offense_count outk = map offense_count (filter (\<lambda>r. group_all r = k) df)"
    by (simp add: outk rs comp_def with_total_simps weigh_simps)
  have wts: "map crime_weight outk = map crime_weight rs"
    by (simp add: outk comp_def with_total_simps)
  have total: "\<forall>r \<in> set outk. offense_total r = offense_count r + offense_unobserved r"
    using merge_samples_total by (auto simp: out outk_def)
  have "sum_list (map offense_total outk)
         = sum_list (map offense_count outk) + sum_list (map offense_unobserved outk)"
    using total by (rule sum_list_pointwise_add)
  then have first: "sum_list (map offense_total outk)
         = sum_list (map offense_count (filter (\<lambda>r. group_all r = k) df))
           + sum_list (map offense_unobserved outk)"
    by (simp only: cnt)
  have sub: "\<forall>x \<in> set S. fst x = k \<longrightarrow> fst (snd x) \<in> uid ` set rs"
  proof (intro ballI impI)
    fix x assume x: "x \<in> set S" and xk: "fst x = k"
    obtain u c where xe: "x = (k, u, c)" using xk by (cases x) auto
    from x xe have "(k, u, c) \<in> set (explode results)" by (simp add: S_def)
    from apply_sample_mem [OF ap this] obtain grp g1 g2 items where
      grp: "(k, grp) \<in> set (groupby Kt df')" and
      sg: "sample_group n_samples_div grp g1 = Inr (Some items, g2)" and
      it: "(u, c) \<in> set items"
      unfolding df'_def by blast
    from groupby_mem [OF grp] have "grp = rs" by (simp add: rs_def)
    with sample_group_uids [OF sg] have "fst ` set items \<subseteq> uid ` set rs" by simp
    with it have "u \<in> uid ` set rs" by force
    then show "fst (snd x) \<in> uid ` set rs" by (simp add: xe)
  qed
  have "sum_list (map offense_unobserved outk)
      = sum_list (map (\<lambda>r0. sum_list (map (\<lambda>(k', u, c). int c)
          (filter (\<lambda>(k', u, c). k' = group_all (row.truncate r0) \<and> u = uid r0) S))) rs)"
    unfolding outk_def out rs_def Kt_def df'_def S_def by (rule merge_samples_group_sum)
  also have "\<dots> = sum_list (map (\<lambda>r0. sum_list (map (\<lambda>(k', u, c). int c)
          (filter (\<lambda>(k', u, c). k' = k \<and> u = uid r0) S))) rs)"
    by (rule arg_cong [where f = sum_list], rule map_cong) (auto simp: rs_def Kt_def)
  also have "\<dots> = sum_list (map (\<lambda>(k', u, c). int c) (filter (\<lambda>(k', u, c). k' = k) S))"
    using dist sub by (rule matched_sum_eq)
  finally have assigned: "sum_list (map offense_unobserved outk)
      = sum_list (map (\<lambda>(k', u, c). int c) (filter (\<lambda>(k', u, c). k' = k) S))" .
  have tokens: "sum_list (map offense_unobserved outk)
      = (if 0 < fl_sum (map crime_weight outk) \<and> 1 \<le> py_int (of_int u / n_samples_div)
         then py_int (of_int u / n_samples_div) else 0)"
    if r: "r \<in> set outk" and u: "unobserved_crimes r = Some u" for r u
  proof -
    from r outk obtain r0 where r0: "r0 \<in> set rs" "r = with_total r0 (A r0)" by auto
    with u have "unobserved_crimes r0 = Some u" by (simp add: with_total_simps)
    with r0(1) have umem: "Some u \<in> set (map unobserved_crimes rs)" by force
    from r0(1) have grp: "(k, rs) \<in> set (groupby Kt df')"
      by (auto simp: rs_def groupby_mem_iff)
    from apply_sample_key_sum [OF ap [folded df'_def] groupby_distinct grp] obtain res g1 g2 where
      sg: "sample_group n_samples_div rs g1 = Inr (res, g2)" and
      eq: "sum_list (map (\<lambda>(k', u, c). int c) (filter (\<lambda>(k', u, c). k' = k) S))
           = (case res of None \<Rightarrow> 0 | Some items \<Rightarrow> sum_list (map (\<lambda>(u, c). int c) items))"
      unfolding S_def by blast
    from sample_group_tokens [OF sg umem] eq assigned show ?thesis by (simp add: wts)
  qed
  have bound: "sum_list (map offense_unobserved outk) \<le> max 0 (py_int (of_int u / n_samples_div))"
    if "r \<in> set outk" and "unobserved_crimes r = Some u" for r u
    using tokens [OF that] by simp
  from rows first tokens bound py_int_target_le [OF d] show ?thesis
    unfolding outk_def by blast
qed

theorem add_unobserved_conservation_witness:
  "\<exists>out g'. add_unobserved 0 ex_df ex_key snd ex_rates None 1 1 ex_rng = Inr (out, g')
      \<and> map row.truncate out = ex_df
      \<and> map offense_unobserved out = [8, 2]
      \<and> sum_list (map offense_total (filter (\<lambda>r. ex_key (row.truncate r) = (''robbery'', ''> 29'', ''M'', ''W'')) out))
          = 10 + sum_list (map offense_unobserved (filter (\<lambda>r. ex_key (row.truncate r) = (''robbery'', ''> 29'', ''M'', ''W'')) out))
      \<and> sum_list (map offense_unobserved (filter (\<lambda>r. ex_key (row.truncate r) = (''robbery'', ''> 29'', ''M'', ''W'')) out))
          \<le> 10"
proof -
  from summary_Inr [OF ex_eval] obtain out g' where
    ok: "add_unobserved 0 ex_df ex_key snd ex_rates None 1 1 ex_rng = Inr (out, g')" and
    cols: "map (\<lambda>r. (uid r, offense_category r, unobserved_crimes r, offense_unobserved r, offense_total r)) out
        = [(1, ''robbery'', Some 10, 8, 18), (2, ''robbery'', Some 10, 2, 2)]"
    by auto
  from cols obtain r1 r2 where out: "out = [r1, r2]"
    and u: "unobserved_crimes r1 = Some 10" and a: "offense_unobserved r1 = 8" "offense_unobserved r2 = 2"
    by (auto simp: map_eq_Cons_conv)
  have d: "1 \<le> (1::rat)" by simp
  have rates: "distinct (map r_key ex_rates)" by (simp add: ex_rates_def ex_rate_def)
  have ids: "distinct (map (\<lambda>r. (ex_key r, uid r)) ex_df)"
    by (simp add: ex_df_def ex_row_def ex_key_def)
  note cons = add_unobserved_conservation [OF ok d rates ids, of "(''robbery'', ''> 29'', ''M'', ''W'')"]
  from cons have rows: "map row.truncate out = ex_df" by blast
  then have t: "row.truncate r1 = ex_row 1 ''robbery'' 10" "row.truncate r2 = ex_row 2 ''robbery'' 0"
    by (simp_all add: out ex_df_def)
  have f: "filter (\<lambda>r. ex_key (row.truncate r) = (''robbery'', ''> 29'', ''M'', ''W'')) out = out"
    by (simp add: out t ex_key_def ex_row_def)
  have obs: "sum_list (map offense_count (filter (\<lambda>r. ex_key r = (''robbery'', ''> 29'', ''M'', ''W'')) ex_df)) = 10"
    by (simp add: ex_df_def ex_key_def ex_row_def)
  have n: "py_int (of_int 10 / 1) = 10" by (simp add: py_int_def)
  from cons have "\<forall>r \<in> set out. \<forall>u. unobserved_crimes r = Some u \<longrightarrow>
      sum_list (map offense_unobserved out) \<le> max 0 (py_int (of_int u / 1))"
    unfolding f by blast
  with u have le: "sum_list (map offense_unobserved out) \<le> 10"
    using n by (auto simp: out)
  from cons have "sum_list (map offense_total out)
      = sum_list (map offense_count (filter (\<lambda>r. ex_key r = (''robbery'', ''> 29'', ''M'', ''W'')) ex_df))
        + sum_list (map offense_unobserved out)"
    unfolding f by blast
  with obs have tot: "sum_list (map offense_total out) = 10 + sum_list (map offense_unobserved out)"
    by simp
  have m: "map offense_unobserved out = [8, 2]" by (simp add: out a)
  from ok rows m tot le
  have "add_unobserved 0 ex_df ex_key snd ex_rates None 1 1 ex_rng = Inr (out, g')
      \<and> map row.truncate out = ex_df
      \<and> map offense_unobserved out = [8, 2]
      \<and> sum_list (map offense_total (filter (\<lambda>r. ex_key (row.truncate r) = (''robbery'', ''> 29'', ''M'', ''W'')) out))
          = 10 + sum_list (map offense_unobserved (filter (\<lambda>r. ex_key (row.truncate r) = (''robbery'', ''> 29'', ''M'', ''W'')) out))
      \<and> sum_list (map offense_unobserved (filter (\<lambda>r. ex_key (row.truncate r) = (''robbery'', ''> 29'', ''M'', ''W'')) out))
          \<le> 10"
    unfolding f by blast
  then show ?thesis by - (rule exI [of _ out], rule exI [of _ g'], assumption)
qed

text \<open>
  C4, as the specification states it, fails for a group whose total rate lies below its
  arrest rate: the group \<^verbatim>\<open>assault\<close> below has 10 observed offenses, an arrest rate of 1 and
  a lambda rate of 1/2, so its unobserved count is -5; no token is drawn for it, and its
  assigned counts add up to 0, which is more than -5.
\<close>

theorem add_unobserved_negative_counterexample:
  "summary (add_unobserved 0 ex_df_mixed ex_key snd ex_rates_mixed None 1 1 ex_rng)
     = Inr ([(1, ''robbery'', Some 10, 8, 18), (2, ''robbery'', Some 10, 2, 2),
             (1, ''assault'', Some (- 5), 0, 10), (2, ''assault'', Some (- 5), 0, 0)],
            ex_rng\<lparr>pos := 10\<rparr>)
   \<and> \<not> (0 + 0 \<le> (- 5 :: int))"
  by (simp add: eval_simps)

section \<open>Properties of the window assembler\<close>

lemma upt5: "[0..<5] = [0, 1, 2, 3, 4]"
  by code_simp

lemma ex_melt:
  "melt (s_crimes ex_sampler) (neulaw_gen ex_sampler y) = ex_df @ ex_df_dui"
  "melt (s_crimes ex_sampler_dup) (neulaw_gen ex_sampler_dup y) = ex_df @ ex_df_dui"
  by (simp_all add: melt_def ex_sampler_def ex_sampler_dup_def ex_wide_def ex_df_def ex_df_dui_def ex_row_def)

lemma ex_parts:
  "filter (\<lambda>r. \<not> nsduh_ids r) ex_df = ex_df"
  "filter (\<lambda>r. \<not> nsduh_ids r) ex_df_dui = []"
  "filter nsduh_ids ex_df = []"
  "filter nsduh_ids ex_df_dui = ex_df_dui"
  by (simp_all add: nsduh_ids_def ex_df_def ex_df_dui_def ex_row_def)

lemma ex_dui_eval:
  "summary (add_unobserved 0 ex_df_dui ex_key snd ex_rates_dui None 1 1 (ex_rng\<lparr>pos := 10\<rparr>))
     = Inr ([(1, ''dui'', Some 5, 2, 4), (2, ''dui'', Some 5, 3, 6)], ex_rng\<lparr>pos := 15\<rparr>)"
  by (simp add: eval_simps ex_df_dui_def ex_rates_dui_def upt5)

lemma ex_dup_eval:
  "summary (add_unobserved 0 ex_df ex_key snd (ex_rates @ ex_rates) None 1 1 ex_rng)
     = Inr ([(1, ''robbery'', Some 10, 8, 18), (1, ''robbery'', Some 10, 8, 18),
             (2, ''robbery'', Some 10, 2, 2), (2, ''robbery'', Some 10, 2, 2)], ex_rng\<lparr>pos := 10\<rparr>)"
  by (simp add: eval_simps)

lemma sample_group_errors:
  "sample_group d grp g = Inl e \<Longrightarrow> e \<in> {ConflictingUnobserved, IntOfNonFinite, InvalidWeights}"
  by (auto simp: sample_group_def Let_def split: if_splits fl.splits sum.splits dest: pd_sample_error)

lemma sample_unobserved_errors:
  assumes "sample_unobserved df K d g = Inl e"
  shows "e \<in> {ConflictingUnobserved, IntOfNonFinite, InvalidWeights, NoSamples}"
proof (cases "apply_sample d (groupby K df) g")
  case (Inl e')
  with assms have "e' = e" by (simp add: sample_unobserved_def)
  with Inl apply_sample_Inl [of d "groupby K df" g e] obtain grp g1 where
    "sample_group d grp g1 = Inl e" by blast
  then show ?thesis by (auto dest: sample_group_errors)
next
  case (Inr p)
  with assms have "e = NoSamples"
    by (cases p) (simp add: sample_unobserved_def split: if_splits)
  then show ?thesis by simp
qed

lemma add_unobserved_errors:
  assumes "add_unobserved nan_int df K G crimes lam omega d g = Inl e"
  shows "e \<in> {FailedToAssign, ConflictingUnobserved, IntOfNonFinite, InvalidWeights, NoSamples}"
proof -
  define offenses where "offenses = count_unobserved nan_int (offenses_table K G crimes df) lam"
  show ?thesis
  proof (cases "\<exists>e \<in> set offenses. isna (g_unobserved_per_person e)")
    case True
    with assms show ?thesis by (simp add: add_unobserved_def offenses_def)
  next
    case False
    with assms have "sample_unobserved (merge_offenses K df offenses omega)
        (\<lambda>r. K (row.truncate r)) d g = Inl e"
      by (auto simp: add_unobserved_def Let_def offenses_def split: sum.splits)
    from sample_unobserved_errors [OF this] show ?thesis by auto
  qed
qed

lemma window_fst: "fst (window s we d g) = fst (window_long s we d g)"
  by (auto simp: window_def split: prod.splits sum.splits)

lemma window_snd_Inl: "snd (window s we d g) = Inl e \<longleftrightarrow> snd (window_long s we d g) = Inl e"
  by (auto simp: window_def split: prod.splits sum.splits)

lemma window_long_rejected:
  "\<not> (s_start_year s \<le> we - s_window s \<and> we - s_window s \<le> s_end_year s) \<Longrightarrow>
     window_long s we d g = ([], Inl BadWindowEnd)"
  by (simp add: window_long_def Let_def)

lemma window_long_accepted:
  assumes "s_start_year s \<le> we - s_window s \<and> we - s_window s \<le> s_end_year s"
  shows "fst (window_long s we d g)
           = [Neulaw (we - s_window s), Ncvs (we - s_window s), Nsduh (we - s_window s)]"
    and "snd (window_long s we d g) \<noteq> Inl BadWindowEnd"
proof -
  from assms show "fst (window_long s we d g)
           = [Neulaw (we - s_window s), Ncvs (we - s_window s), Nsduh (we - s_window s)]"
    by (simp add: window_long_def Let_def)
  show "snd (window_long s we d g) \<noteq> Inl BadWindowEnd"
  proof
    assume bad: "snd (window_long s we d g) = Inl BadWindowEnd"
    define df where "df = melt (s_crimes s) (neulaw_gen s (we - s_window s))"
    show False
    proof (cases "add_unobserved (s_nan_int s) (filter (\<lambda>r. \<not> nsduh_ids r) df) (s_neulaw_to_ncvs s)
        (s_groups_ncvs s) (ncvs_gen s (we - s_window s)) (s_lam s) (s_omega s) d g")
      case (Inl e)
      with bad assms have "e = BadWindowEnd" by (simp add: window_long_def Let_def df_def)
      with add_unobserved_errors [OF Inl] show False by simp
    next
      case (Inr p)
      obtain a g1 where p: "p = (a, g1)" by (cases p)
      show False
      proof (cases "add_unobserved (s_nan_int s) (filter nsduh_ids df) (s_neulaw_to_nsduh s)
          (s_groups_nsduh s) (nsduh_gen s (we - s_window s)) (s_lam s) (s_omega s) d g1")
        case (Inl e)
        with bad assms Inr p have "e = BadWindowEnd" by (simp add: window_long_def Let_def df_def)
        with add_unobserved_errors [OF Inl] show False by simp
      next
        case (Inr q)
        with bad assms \<open>add_unobserved (s_nan_int s) (filter (\<lambda>r. \<not> nsduh_ids r) df) (s_neulaw_to_ncvs s)
          (s_groups_ncvs s) (ncvs_gen s (we - s_window s)) (s_lam s) (s_omega s) d g = Inr p\<close> p
        show False by (cases q) (simp add: window_long_def Let_def df_def split: if_splits)
      qed
    qed
  qed
qed


lemma window_long_result:
  assumes year: "s_start_year s \<le> we - s_window s \<and> we - s_window s \<le> s_end_year s"
      and a: "add_unobserved (s_nan_int s) (filter (\<lambda>r. \<not> nsduh_ids r) (melt (s_crimes s) (neulaw_gen s (we - s_window s))))
                (s_neulaw_to_ncvs s) (s_groups_ncvs s) (ncvs_gen s (we - s_window s))
                (s_lam s) (s_omega s) d g = Inr (a, g1)"
      and b: "add_unobserved (s_nan_int s) (filter nsduh_ids (melt (s_crimes s) (neulaw_gen s (we - s_window s))))
                (s_neulaw_to_nsduh s) (s_groups_nsduh s) (nsduh_gen s (we - s_window s))
                (s_lam s) (s_omega s) d g1 = Inr (b, g2)"
  shows "snd (window_long s we d g)
     = (if length (a @ b) \<noteq> length (melt (s_crimes s) (neulaw_gen s (we - s_window s)))
        then Inl SizeChanged else Inr (a @ b, g2))"
  using year a b by (simp add: window_long_def Let_def)

lemma window_long_length:
  assumes "snd (window_long s we d g) = Inr (out, g')"
  shows "length out = length (melt (s_crimes s) (neulaw_gen s (we - s_window s)))"
  using assms
  by (auto simp: window_long_def Let_def split: if_splits sum.splits prod.splits)

lemma window_snd_Inr:
  "snd (window s we d g) = Inr (res, g') \<Longrightarrow>
     \<exists>out. snd (window_long s we d g) = Inr (out, g') \<and> res = pivot_table out"
  by (auto simp: window_def split: prod.splits sum.splits)

lemma window_snd_ok:
  "snd (window_long s we d g) = Inr (out, g') \<Longrightarrow>
     snd (window s we d g) = Inr (pivot_table out, g')"
  by (cases "window_long s we d g") (auto simp: window_def)


lemma ex_sampler_fields:
  "s_start_year ex_sampler \<le> 2003 - s_window ex_sampler \<and> 2003 - s_window ex_sampler \<le> s_end_year ex_sampler"
  "s_start_year ex_sampler_dup \<le> 2003 - s_window ex_sampler_dup \<and> 2003 - s_window ex_sampler_dup \<le> s_end_year ex_sampler_dup"
  "s_neulaw_to_ncvs ex_sampler = ex_key" "s_neulaw_to_nsduh ex_sampler = ex_key"
  "s_groups_ncvs ex_sampler = snd" "s_groups_nsduh ex_sampler = snd"
  "ncvs_gen ex_sampler y = ex_rates" "nsduh_gen ex_sampler y = ex_rates_dui"
  "s_lam ex_sampler = None" "s_omega ex_sampler = 1" "s_nan_int ex_sampler = 0"
  "s_neulaw_to_ncvs ex_sampler_dup = ex_key" "s_neulaw_to_nsduh ex_sampler_dup = ex_key"
  "s_groups_ncvs ex_sampler_dup = snd" "s_groups_nsduh ex_sampler_dup = snd"
  "ncvs_gen ex_sampler_dup y = ex_rates @ ex_rates" "nsduh_gen ex_sampler_dup y = ex_rates_dui"
  "s_lam ex_sampler_dup = None" "s_omega ex_sampler_dup = 1" "s_nan_int ex_sampler_dup = 0"
  by (simp_all add: ex_sampler_def ex_sampler_dup_def)


text \<open>
  C5. Whenever \<^verbatim>\<open>_window\<close> returns a result, it is the pivot of a recombined long frame
  with exactly as many rows as the melted cohort; and whenever the year is accepted, both
  partitions are processed without error and the recombined frame differs in length from
  the melted cohort, \<^verbatim>\<open>_window\<close> ends in the size error and returns nothing.
\<close>

theorem window_row_count:
  "(snd (window s window_end n_samples_div g) = Inr (res, g') \<longrightarrow>
      (\<exists>out. snd (window_long s window_end n_samples_div g) = Inr (out, g') \<and> res = pivot_table out
         \<and> length out = length (melt (s_crimes s) (neulaw_gen s (window_end - s_window s)))))
   \<and> (s_start_year s \<le> window_end - s_window s \<and> window_end - s_window s \<le> s_end_year s
       \<and> add_unobserved (s_nan_int s)
            (filter (\<lambda>r. \<not> nsduh_ids r) (melt (s_crimes s) (neulaw_gen s (window_end - s_window s))))
            (s_neulaw_to_ncvs s) (s_groups_ncvs s) (ncvs_gen s (window_end - s_window s))
            (s_lam s) (s_omega s) n_samples_div g = Inr (a, g1)
       \<and> add_unobserved (s_nan_int s)
            (filter nsduh_ids (melt (s_crimes s) (neulaw_gen s (window_end - s_window s))))
            (s_neulaw_to_nsduh s) (s_groups_nsduh s) (nsduh_gen s (window_end - s_window s))
            (s_lam s) (s_omega s) n_samples_div g1 = Inr (b, g2)
       \<and> length (a @ b) \<noteq> length (melt (s_crimes s) (neulaw_gen s (window_end - s_window s)))
      \<longrightarrow> snd (window s window_end n_samples_div g) = Inl SizeChanged)"
proof (rule conjI; rule impI)
  assume "snd (window s window_end n_samples_div g) = Inr (res, g')"
  from window_snd_Inr [OF this] obtain out where
    out: "snd (window_long s window_end n_samples_div g) = Inr (out, g')" "res = pivot_table out"
    by blast
  from window_long_length [OF out(1)] out
  show "\<exists>out. snd (window_long s window_end n_samples_div g) = Inr (out, g') \<and> res = pivot_table out
         \<and> length out = length (melt (s_crimes s) (neulaw_gen s (window_end - s_window s)))"
    by blast
next
  assume h: "s_start_year s \<le> window_end - s_window s \<and> window_end - s_window s \<le> s_end_year s
       \<and> add_unobserved (s_nan_int s)
            (filter (\<lambda>r. \<not> nsduh_ids r) (melt (s_crimes s) (neulaw_gen s (window_end - s_window s))))
            (s_neulaw_to_ncvs s) (s_groups_ncvs s) (ncvs_gen s (window_end - s_window s))
            (s_lam s) (s_omega s) n_samples_div g = Inr (a, g1)
       \<and> add_unobserved (s_nan_int s)
            (filter nsduh_ids (melt (s_crimes s) (neulaw_gen s (window_end - s_window s))))
            (s_neulaw_to_nsduh s) (s_groups_nsduh s) (nsduh_gen s (window_end - s_window s))
            (s_lam s) (s_omega s) n_samples_div g1 = Inr (b, g2)
       \<and> length (a @ b) \<noteq> length (melt (s_crimes s) (neulaw_gen s (window_end - s_window s)))"
  then have "snd (window_long s window_end n_samples_div g) = Inl SizeChanged"
    using window_long_result [of s window_end n_samples_div g a g1 b g2] by simp
  then show "snd (window s window_end n_samples_div g) = Inl SizeChanged"
    by (simp add: window_snd_Inl)
qed


theorem window_row_count_witness:
  "(\<exists>out g'. snd (window_long ex_sampler 2003 1 ex_rng) = Inr (out, g') \<and> length out = 4)
   \<and> snd (window ex_sampler_dup 2003 1 ex_rng) = Inl SizeChanged"
proof -
  from summary_Inr [OF ex_eval] obtain a where
    a: "add_unobserved 0 ex_df ex_key snd ex_rates None 1 1 ex_rng
          = Inr (a, ex_rng\<lparr>pos := 10\<rparr>)" and la: "length a = 2"
    by (auto simp: map_eq_Cons_conv)
  from summary_Inr [OF ex_dui_eval] obtain b where
    b: "add_unobserved 0 ex_df_dui ex_key snd ex_rates_dui None 1 1 (ex_rng\<lparr>pos := 10\<rparr>)
          = Inr (b, ex_rng\<lparr>pos := 15\<rparr>)" and lb: "length b = 2"
    by (auto simp: map_eq_Cons_conv)
  from summary_Inr [OF ex_dup_eval] obtain a' where
    a': "add_unobserved 0 ex_df ex_key snd (ex_rates @ ex_rates) None 1 1 ex_rng
          = Inr (a', ex_rng\<lparr>pos := 10\<rparr>)" and la': "length a' = 4"
    by (auto simp: map_eq_Cons_conv)
  have lm: "length (ex_df @ ex_df_dui) = 4" by (simp add: ex_df_def ex_df_dui_def)
  from window_long_result [of ex_sampler 2003 1 ex_rng a "ex_rng\<lparr>pos := 10\<rparr>" b "ex_rng\<lparr>pos := 15\<rparr>"]
    a b la lb lm
  have ok: "snd (window_long ex_sampler 2003 1 ex_rng) = Inr (a @ b, ex_rng\<lparr>pos := 15\<rparr>)"
    by (simp add: ex_sampler_fields ex_melt ex_parts)
  then have "snd (window ex_sampler 2003 1 ex_rng) = Inr (pivot_table (a @ b), ex_rng\<lparr>pos := 15\<rparr>)"
    by (rule window_snd_ok)
  with window_row_count [of ex_sampler 2003 1 ex_rng "pivot_table (a @ b)" "ex_rng\<lparr>pos := 15\<rparr>",
      THEN conjunct1]
  obtain out where "snd (window_long ex_sampler 2003 1 ex_rng) = Inr (out, ex_rng\<lparr>pos := 15\<rparr>)"
      "length out = length (melt (s_crimes ex_sampler) (neulaw_gen ex_sampler (2003 - s_window ex_sampler)))"
    by blast
  with lm have first: "\<exists>out g'. snd (window_long ex_sampler 2003 1 ex_rng) = Inr (out, g') \<and> length out = 4"
    by (auto simp: ex_melt)
  from window_row_count [of ex_sampler_dup 2003 1 ex_rng _ _ a' "ex_rng\<lparr>pos := 10\<rparr>" b "ex_rng\<lparr>pos := 15\<rparr>",
      THEN conjunct2] a' b la' lb lm
  have second: "snd (window ex_sampler_dup 2003 1 ex_rng) = Inl SizeChanged"
    by (simp add: ex_sampler_fields ex_melt ex_parts)
  from first second show ?thesis by blast
qed

text \<open>
  C7, as the code has it. \<^verbatim>\<open>_window\<close> checks the first year of the window,
  \<^verbatim>\<open>window_end - window\<close>: if it lies outside \<^verbatim>\<open>[start_year, end_year]\<close> the call ends in
  the usage error with no generator called; if it lies inside, the three generators are
  called for that year and the usage error is not raised.
\<close>

theorem window_end_check:
  "(\<not> (s_start_year s \<le> window_end - s_window s \<and> window_end - s_window s \<le> s_end_year s)
      \<longrightarrow> window s window_end n_samples_div g = ([], Inl BadWindowEnd))
   \<and> (s_start_year s \<le> window_end - s_window s \<and> window_end - s_window s \<le> s_end_year s
      \<longrightarrow> fst (window s window_end n_samples_div g)
            = [Neulaw (window_end - s_window s), Ncvs (window_end - s_window s),
               Nsduh (window_end - s_window s)]
          \<and> snd (window s window_end n_samples_div g) \<noteq> Inl BadWindowEnd)"
proof (rule conjI; rule impI)
  assume "\<not> (s_start_year s \<le> window_end - s_window s \<and> window_end - s_window s \<le> s_end_year s)"
  then have "window_long s window_end n_samples_div g = ([], Inl BadWindowEnd)"
    by (rule window_long_rejected)
  then show "window s window_end n_samples_div g = ([], Inl BadWindowEnd)"
    by (simp add: window_def)
next
  assume "s_start_year s \<le> window_end - s_window s \<and> window_end - s_window s \<le> s_end_year s"
  from window_long_accepted [OF this, of n_samples_div g]
  show "fst (window s window_end n_samples_div g)
            = [Neulaw (window_end - s_window s), Ncvs (window_end - s_window s),
               Nsduh (window_end - s_window s)]
          \<and> snd (window s window_end n_samples_div g) \<noteq> Inl BadWindowEnd"
    by (simp add: window_fst window_snd_Inl)
qed


theorem window_end_check_witness:
  "window ex_sampler 2001 1 ex_rng = ([], Inl BadWindowEnd)
   \<and> fst (window ex_sampler 2003 1 ex_rng) = [Neulaw 2000, Ncvs 2000, Nsduh 2000]
   \<and> snd (window ex_sampler 2003 1 ex_rng) \<noteq> Inl BadWindowEnd"
proof -
  have out: "\<not> (s_start_year ex_sampler \<le> 2001 - s_window ex_sampler
      \<and> 2001 - s_window ex_sampler \<le> s_end_year ex_sampler)"
    by (simp add: ex_sampler_def)
  have inside: "s_start_year ex_sampler \<le> 2003 - s_window ex_sampler
      \<and> 2003 - s_window ex_sampler \<le> s_end_year ex_sampler"
    by (simp add: ex_sampler_def)
  have y: "2003 - s_window ex_sampler = 2000" by (simp add: ex_sampler_def)
  from window_end_check [of ex_sampler 2001 1 ex_rng] out
  have "window ex_sampler 2001 1 ex_rng = ([], Inl BadWindowEnd)" by blast
  moreover from window_end_check [of ex_sampler 2003 1 ex_rng] inside
  have "fst (window ex_sampler 2003 1 ex_rng)
            = [Neulaw (2003 - s_window ex_sampler), Ncvs (2003 - s_window ex_sampler),
               Nsduh (2003 - s_window ex_sampler)]
          \<and> snd (window ex_sampler 2003 1 ex_rng) \<noteq> Inl BadWindowEnd" by blast
  ultimately show ?thesis by (simp add: y)
qed


text \<open>
  C7, as the specification states it, fails in both directions: with the bound
  \<open>[2000, 2010]\<close> and a window of 3, the end-year 2001 lies inside the bound and is rejected,
  and the end-year 2012 lies outside the bound and is accepted (the generators are called
  for 2009).
\<close>

theorem window_end_in_bounds_counterexample:
  "s_start_year ex_sampler \<le> 2001 \<and> 2001 \<le> s_end_year ex_sampler
   \<and> window ex_sampler 2001 1 ex_rng = ([], Inl BadWindowEnd)
   \<and> s_end_year ex_sampler < 2012
   \<and> fst (window ex_sampler 2012 1 ex_rng) = [Neulaw 2009, Ncvs 2009, Nsduh 2009]"
proof -
  have "s_start_year ex_sampler \<le> 2012 - s_window ex_sampler
      \<and> 2012 - s_window ex_sampler \<le> s_end_year ex_sampler"
    by (simp add: ex_sampler_def)
  from window_long_accepted(1) [OF this, of 1 ex_rng]
  have "fst (window ex_sampler 2012 1 ex_rng) = [Neulaw 2009, Ncvs 2009, Nsduh 2009]"
    by (simp add: window_fst ex_sampler_def)
  moreover have "window ex_sampler 2001 1 ex_rng = ([], Inl BadWindowEnd)"
    by (simp add: window_def window_long_def Let_def ex_sampler_def)
  ultimately show ?thesis by (simp add: ex_sampler_def)
qed

section \<open>Properties of the age category\<close>

lemma cut_age_under_18: "cut_age a = ''< 18'' \<longleftrightarrow> 0 < a \<and> a \<le> 17"
  by (auto simp: cut_age_def)

lemma add_age_kept:
  "r \<in> set (add_age df end_year) \<Longrightarrow>
     \<exists>r0 \<in> set df. 17 < age_of end_year (dob r0)
        \<and> r = r0\<lparr>age_cat := cut_age (age_of end_year (dob r0))\<rparr>"
  by (auto simp: add_age_def cut_age_under_18 not_le)

lemma add_age_drops_young:
  "age_of end_year (dob r0) \<le> 17 \<Longrightarrow>
     r0\<lparr>age_cat := cut_age (age_of end_year (dob r0))\<rparr> \<notin> set (add_age [r0] end_year)"
  by (auto simp: add_age_def cut_age_under_18 not_le)

text \<open>
  C8 fails on the code. An individual born on 1994-07-01 is 6393 days old on 2012-01-01,
  that is 17.5 years, under 18; the first bin of \<^verbatim>\<open>pd.cut\<close> ends at 17, so the row is
  labelled \<^verbatim>\<open>18-29\<close> and stays in the output, although the label of the bin and the
  comment of the filter say that all entries under 18 are removed.
\<close>

theorem add_age_keeps_under_18:
  "age_of 2012 (1994, 7, 1) < 18
   \<and> add_age [\<lparr>uid = 1, gender = ''M'', race = ''W'', dob = (1994, 7, 1), age_cat = []\<rparr>] 2012
       = [\<lparr>uid = 1, gender = ''M'', race = ''W'', dob = (1994, 7, 1), age_cat = ''18-29''\<rparr>]"
  by (simp add: add_age_def age_of_def days_from_civil_def cut_age_def Let_def)

end
